theory Spec2Isabelle
  imports Complex_Main "HOL-Library.Monad_Syntax" "HOL-Library.Signed_Division"
begin

section \<open>Cordle: the matching/reveal engine and the game modes of \<^verbatim>\<open>src/main.cpp\<close>\<close>

text \<open>
  The C++ program is embedded shallowly. Every member function becomes a HOL function that
  takes the object and returns the updated object. An access outside a \<^verbatim>\<open>std::vector\<close> or a
  \<^verbatim>\<open>std::string\<close> is undefined behaviour in C++: in the model every indexed read and write is
  checked and yields \<open>None\<close> out of range, so that a result \<open>Some _\<close> says that no access
  left its container. The C++ \<^verbatim>\<open>int\<close> counters are modelled by unbounded \<open>int\<close>: the
  counts are bounded by the number of characters of the snippet.
\<close>

subsection \<open>Loops and checked accesses\<close>

text \<open>
  \<^verbatim>\<open>for(int k=i;k<n;k++) body\<close>, where the body updates the loop-carried variables \<open>acc\<close>
  and may fail.
\<close>

function for_loop :: "nat \<Rightarrow> nat \<Rightarrow> (nat \<Rightarrow> 'a \<Rightarrow> 'a option) \<Rightarrow> 'a \<Rightarrow> 'a option" where
  "for_loop i n body acc =
     (if i < n then
        (case body i acc of
           None \<Rightarrow> None
         | Some acc' \<Rightarrow> for_loop (Suc i) n body acc')
      else Some acc)"
  by pat_completeness auto
termination
  by (relation "measure (\<lambda>(i, n, body, acc). n - i)") auto

declare for_loop.simps [simp del]

text \<open>\<^verbatim>\<open>v[k]\<close> on a vector or string, as a read.\<close>

definition get :: "'a list \<Rightarrow> nat \<Rightarrow> 'a option" where
  "get xs k = (if k < length xs then Some (xs ! k) else None)"

text \<open>\<^verbatim>\<open>state[i][p]\<close> as a read and \<^verbatim>\<open>state[i][p]=v\<close> as a write.\<close>

definition get_cell :: "int list list \<Rightarrow> nat \<Rightarrow> nat \<Rightarrow> int option" where
  "get_cell st i p = (if i < length st \<and> p < length (st ! i) then Some (st ! i ! p) else None)"

definition set_cell :: "int list list \<Rightarrow> nat \<Rightarrow> nat \<Rightarrow> int \<Rightarrow> int list list option" where
  "set_cell st i p v =
     (if i < length st \<and> p < length (st ! i) then Some (st[i := (st ! i)[p := v]]) else None)"

text \<open>
  \<^verbatim>\<open>std::string::substr(pos,n)\<close>: throws \<^verbatim>\<open>std::out_of_range\<close> when \<open>pos\<close> is beyond the
  size, and otherwise returns at most \<open>n\<close> characters from \<open>pos\<close>.
\<close>

definition substr :: "string \<Rightarrow> nat \<Rightarrow> nat \<Rightarrow> string option" where
  "substr s pos n = (if length s < pos then None else Some (take n (drop pos s)))"

subsection \<open>CodeSnippet\<close>

definition MIN_LEN :: int where "MIN_LEN = 3"
definition UNGUESSED :: int where "UNGUESSED = 0"
definition FUZZY_MATCH :: int where "FUZZY_MATCH = 1"
definition EXACT_MATCH :: int where "EXACT_MATCH = 2"
definition FUZZY_FAIL :: int where "FUZZY_FAIL = 1"
definition FUZZY_COUNT :: int where "FUZZY_COUNT = 2"

text \<open>
  \<^verbatim>\<open>class AppException\<close>: the value carried is \<^verbatim>\<open>what()\<close>, the message behind the
  prefix that the constructor adds.
\<close>

datatype AppException = AppException string

definition AppException_new :: "string \<Rightarrow> AppException" where
  "AppException_new msg = AppException (''[Error] '' @ msg)"

text \<open>
  A file system is a partial map from a path to the lines that \<^verbatim>\<open>std::getline\<close> reads
  from the file at that path; \<open>None\<close> is a file that cannot be opened.
\<close>

type_synonym filesystem = "string \<Rightarrow> string list option"

record CodeSnippet =
  path :: string
  code :: "string list"
  state :: "int list list"
  fuzzyAllowed :: bool

text \<open>
  \<^verbatim>\<open>loadFromFile\<close>: for every line read, each tab becomes four blanks, \<open>MIN_LEN - 1\<close>
  blanks are appended, the line is pushed on \<open>code\<close> and a row of zeros of the line's
  size on \<open>state\<close>.
\<close>

definition expand_tabs :: "string \<Rightarrow> string" where
  "expand_tabs line = concat (map (\<lambda>c. if c = CHR 0x09 then replicate 4 CHR '' '' else [c]) line)"

definition loadFromFile :: "filesystem \<Rightarrow> CodeSnippet \<Rightarrow> AppException + CodeSnippet" where
  "loadFromFile fs s =
     (case fs (path s) of
        None \<Rightarrow> Inl (AppException_new (''Could not open file: '' @ path s))
      | Some lines \<Rightarrow>
          Inr (fold (\<lambda>line s.
                 let line = expand_tabs line @ replicate (nat (MIN_LEN - 1)) CHR '' ''
                 in s\<lparr>code := code s @ [line],
                      state := state s @ [replicate (length line) 0]\<rparr>)
               lines s))"

text \<open>The two constructors: the default one, and the one that loads a file.\<close>

definition CodeSnippet_default :: CodeSnippet where
  "CodeSnippet_default = \<lparr>path = [], code = [], state = [], fuzzyAllowed = True\<rparr>"

definition CodeSnippet_new :: "filesystem \<Rightarrow> string \<Rightarrow> bool \<Rightarrow> AppException + CodeSnippet" where
  "CodeSnippet_new fs filePath fuzzy =
     loadFromFile fs \<lparr>path = filePath, code = [], state = [], fuzzyAllowed = fuzzy\<rparr>"

definition getMinLen :: "CodeSnippet \<Rightarrow> int" where
  "getMinLen s = MIN_LEN"

text \<open>\<^verbatim>\<open>getTotalNumber\<close>: the two range-based loops count the non-blank characters.\<close>

definition getTotalNumber :: "CodeSnippet \<Rightarrow> int" where
  "getTotalNumber s =
     fold (\<lambda>line total. fold (\<lambda>c total. if c \<noteq> CHR '' '' then total + 1 else total) line total)
       (code s) 0"

text \<open>\<^verbatim>\<open>getGuessedNumber\<close>: the state is read only where the character is not blank.\<close>

definition getGuessedNumber :: "CodeSnippet \<Rightarrow> int option" where
  "getGuessedNumber s =
     for_loop 0 (length (code s))
       (\<lambda>i guessed. do {
          line \<leftarrow> get (code s) i;
          for_loop 0 (length line)
            (\<lambda>j guessed. do {
               c \<leftarrow> get line j;
               if c \<noteq> CHR '' '' then do {
                 v \<leftarrow> get_cell (state s) i j;
                 Some (if v = EXACT_MATCH then guessed + 1 else guessed) }
               else Some guessed })
            guessed })
       0"

text \<open>
  \<^verbatim>\<open>guess\<close>. The body of the window loop is \<open>guess_window\<close>: the loop-carried variables are
  the result pair and the state grid. \<^verbatim>\<open>continue\<close> ends the body of the window loop.
\<close>

definition guess_exact_update :: "nat \<Rightarrow> nat \<Rightarrow> nat \<Rightarrow> int list list \<Rightarrow> int list list option" where
  "guess_exact_update i j len st =
     for_loop 0 len (\<lambda>k st. set_cell st i (j + k) EXACT_MATCH) st"

definition guess_fuzzy_counts :: "string \<Rightarrow> string \<Rightarrow> nat \<Rightarrow> nat \<Rightarrow> (int \<times> int) option" where
  "guess_fuzzy_counts g line j len =
     for_loop 0 len
       (\<lambda>k (failmatch, count). do {
          gk \<leftarrow> get g k;
          let count = (if gk \<noteq> CHR '' '' then count + 1 else count);
          c \<leftarrow> get line (j + k);
          let failmatch = (if c \<noteq> gk then failmatch + 1 else failmatch);
          Some (failmatch, count) })
       (0, 0)"

definition guess_fuzzy_update :: "nat \<Rightarrow> nat \<Rightarrow> nat \<Rightarrow> int list list \<Rightarrow> int list list option" where
  "guess_fuzzy_update i j len st =
     for_loop 0 len
       (\<lambda>k st. do {
          v \<leftarrow> get_cell st i (j + k);
          if v = UNGUESSED then set_cell st i (j + k) FUZZY_MATCH else Some st })
       st"

definition guess_window ::
  "string \<Rightarrow> bool \<Rightarrow> string \<Rightarrow> nat \<Rightarrow> nat \<Rightarrow> (int \<times> int) \<times> int list list \<Rightarrow>
     ((int \<times> int) \<times> int list list) option" where
  "guess_window g fuzzy line i j = (\<lambda>(result, st).
     let len = length g in do {
       w \<leftarrow> substr line j len;
       if w = g then do {
         st' \<leftarrow> guess_exact_update i j len st;
         Some ((fst result + 1, snd result), st') }
       else if \<not> fuzzy then Some (result, st)
       else do {
         (failmatch, count) \<leftarrow> guess_fuzzy_counts g line j len;
         if failmatch \<le> FUZZY_FAIL \<and> count \<ge> FUZZY_COUNT then do {
           st' \<leftarrow> guess_fuzzy_update i j len st;
           Some ((fst result, snd result + 1), st') }
         else Some (result, st) } })"

text \<open>
  The window loop of one line, \<^verbatim>\<open>for(int j=0;j <= (int)line.size()-len;j++)\<close>: the bound is
  computed on \<^verbatim>\<open>int\<close>, so a line shorter than the guess gives a negative bound and no
  iteration.
\<close>

definition guess_line ::
  "string \<Rightarrow> bool \<Rightarrow> string \<Rightarrow> nat \<Rightarrow> (int \<times> int) \<times> int list list \<Rightarrow>
     ((int \<times> int) \<times> int list list) option" where
  "guess_line g fuzzy line i acc =
     for_loop 0 (nat (int (length line) - int (length g) + 1)) (guess_window g fuzzy line i) acc"

definition guess :: "string \<Rightarrow> CodeSnippet \<Rightarrow> ((int \<times> int) \<times> CodeSnippet) option" where
  "guess g s =
     (let len = int (length g) in
      if len < MIN_LEN then Some ((- 1, - 1), s)
      else do {
        let result = (0, if \<not> fuzzyAllowed s then - 1 else 0);
        (result, st) \<leftarrow>
          for_loop 0 (length (code s))
            (\<lambda>i acc. do { line \<leftarrow> get (code s) i; guess_line g (fuzzyAllowed s) line i acc })
            (result, state s);
        Some (result, s\<lparr>state := st\<rparr>) })"

text \<open>
  \<^verbatim>\<open>check\<close>. The \<^verbatim>\<open>break\<close> leaves the loop over the positions of the line with
  \<open>ok = false\<close>; the loop over the lines goes on.
\<close>

function check_line :: "string \<Rightarrow> int list list \<Rightarrow> nat \<Rightarrow> nat \<Rightarrow> bool \<Rightarrow> bool option" where
  "check_line line st i j ok =
     (if j < length line then do {
        c \<leftarrow> get line j;
        if c \<noteq> CHR '' '' then do {
          v \<leftarrow> get_cell st i j;
          if v \<noteq> EXACT_MATCH then Some False
          else check_line line st i (Suc j) ok }
        else check_line line st i (Suc j) ok }
      else Some ok)"
  by pat_completeness auto
termination
  by (relation "measure (\<lambda>(line, st, i, j, ok). length line - j)") auto

declare check_line.simps [simp del]

definition check :: "CodeSnippet \<Rightarrow> bool option" where
  "check s =
     for_loop 0 (length (code s))
       (\<lambda>i ok. do { line \<leftarrow> get (code s) i; check_line line (state s) i 0 ok })
       True"

text \<open>
  \<^verbatim>\<open>reveal\<close>. The generator is outside the model: \<open>rnd\<close> is the number it yields, and
  \<^verbatim>\<open>std::uniform_int_distribution<>(0,size-1)\<close> maps it into the range of indices, here
  by \<open>mod\<close>, so that every index can be drawn and no other.
\<close>

definition reveal_candidates :: "CodeSnippet \<Rightarrow> (nat \<times> nat) list option" where
  "reveal_candidates s =
     for_loop 0 (length (code s))
       (\<lambda>i posVec. do {
          line \<leftarrow> get (code s) i;
          for_loop 0 (length line)
            (\<lambda>j posVec. do {
               c \<leftarrow> get line j;
               if c \<noteq> CHR '' '' then do {
                 v \<leftarrow> get_cell (state s) i j;
                 Some (if v \<noteq> EXACT_MATCH then posVec @ [(i, j)] else posVec) }
               else Some posVec })
            posVec })
       []"

definition reveal :: "nat \<Rightarrow> CodeSnippet \<Rightarrow> CodeSnippet option" where
  "reveal rnd s = do {
     posVec \<leftarrow> reveal_candidates s;
     if posVec = [] then Some s
     else do {
       pos \<leftarrow> get posVec (rnd mod length posVec);
       st \<leftarrow> set_cell (state s) (fst pos) (snd pos) EXACT_MATCH;
       Some (s\<lparr>state := st\<rparr>) } }"

subsection \<open>CodeRepo, StatisticsRepo, GameHistoryFormatter\<close>

text \<open>
  Of \<^verbatim>\<open>CodeRepo\<close> the model keeps the root directory and the cache, as the list of the
  stems of the cached paths. \<^verbatim>\<open>random\<close> draws an index like \<open>reveal\<close> does.
\<close>

record CodeRepo =
  root :: string
  cacheVec :: "string list"

definition makePath :: "CodeRepo \<Rightarrow> string \<Rightarrow> string" where
  "makePath r pid = root r @ ''/'' @ pid @ ''.txt''"

definition CodeRepo_random :: "nat \<Rightarrow> CodeRepo \<Rightarrow> string" where
  "CodeRepo_random rnd r =
     (if cacheVec r = [] then [] else cacheVec r ! (rnd mod length (cacheVec r)))"

definition loadSnippet :: "filesystem \<Rightarrow> CodeRepo \<Rightarrow> string \<Rightarrow> bool \<Rightarrow> AppException + CodeSnippet" where
  "loadSnippet fs r pid fuzzy = CodeSnippet_new fs (makePath r pid) fuzzy"

text \<open>
  A \<^verbatim>\<open>double\<close> that is a finite number is read as the real number it denotes. An
  operation on \<^verbatim>\<open>double\<close>s is the operation on the reals followed by the rounding
  \<open>fl\<close> to a \<^verbatim>\<open>double\<close>, which is an argument of the functions that compute: nothing is
  assumed of it (the idealised arithmetic is \<open>fl x = x\<close>). An \<^verbatim>\<open>int\<close> converts
  exactly. Overflow is not modelled. A \<^verbatim>\<open>double\<close> that a division by zero can make is
  \<open>real option\<close>, where \<open>None\<close> is a value that is not a finite number.
\<close>

type_synonym double = "real option"

record StatisticsRepo =
  totalGames :: int
  guessLimitedGames :: int
  timeAttackGames :: int
  pointGames :: int
  guessLimitedWins :: int
  timeAttackWins :: int
  totalPoints :: double
  gameHistory :: "string list"

text \<open>
  \<^verbatim>\<open>addGame<T>\<close> at \<open>T = int\<close>, the instance that the guess-limited and the time-attack
  game use, and at \<open>T = double\<close>, the one of the point game. In the latter the two
  branches that add a \<^verbatim>\<open>double\<close> to an \<^verbatim>\<open>int\<close> counter convert the sum to \<^verbatim>\<open>int\<close>,
  which truncates and is undefined for a value that is not finite (\<open>None\<close>).
\<close>

definition addGame_int :: "string \<Rightarrow> string \<Rightarrow> int \<Rightarrow> StatisticsRepo \<Rightarrow> StatisticsRepo" where
  "addGame_int gameHistoryLine gameType st r =
     (let r =
        (if gameType = ''guessLimited'' then
           r\<lparr>guessLimitedGames := guessLimitedGames r + 1,
             guessLimitedWins := guessLimitedWins r + st\<rparr>
         else if gameType = ''timeAttack'' then
           r\<lparr>timeAttackGames := timeAttackGames r + 1,
             timeAttackWins := timeAttackWins r + st\<rparr>
         else if gameType = ''point'' then
           r\<lparr>pointGames := pointGames r + 1,
             totalPoints := map_option (\<lambda>t. t + of_int st) (totalPoints r)\<rparr>
         else r)
      in r\<lparr>totalGames := totalGames r + 1,
           gameHistory := gameHistory r @ [gameHistoryLine]\<rparr>)"

definition trunc_int :: "real \<Rightarrow> int" where
  "trunc_int x = (if 0 \<le> x then \<lfloor>x\<rfloor> else \<lceil>x\<rceil>)"

definition addGame_double ::
  "(real \<Rightarrow> real) \<Rightarrow> string \<Rightarrow> string \<Rightarrow> double \<Rightarrow> StatisticsRepo \<Rightarrow> StatisticsRepo option" where
  "addGame_double fl gameHistoryLine gameType st r = do {
     r \<leftarrow>
       (if gameType = ''guessLimited'' then do {
          x \<leftarrow> st;
          Some (r\<lparr>guessLimitedGames := guessLimitedGames r + 1,
                  guessLimitedWins := trunc_int (fl (of_int (guessLimitedWins r) + x))\<rparr>) }
        else if gameType = ''timeAttack'' then do {
          x \<leftarrow> st;
          Some (r\<lparr>timeAttackGames := timeAttackGames r + 1,
                  timeAttackWins := trunc_int (fl (of_int (timeAttackWins r) + x))\<rparr>) }
        else if gameType = ''point'' then
          Some (r\<lparr>pointGames := pointGames r + 1,
                  totalPoints := do { t \<leftarrow> totalPoints r; x \<leftarrow> st; Some (fl (t + x)) }\<rparr>)
        else Some r);
     Some (r\<lparr>totalGames := totalGames r + 1,
             gameHistory := gameHistory r @ [gameHistoryLine]\<rparr>) }"

text \<open>\<^verbatim>\<open>std::left << std::setw(w) << s\<close>: the text, padded with blanks on the right to \<open>w\<close>.\<close>

definition setw_left :: "nat \<Rightarrow> string \<Rightarrow> string" where
  "setw_left w s = s @ replicate (w - length s) CHR '' ''"

definition timeWidth :: nat where "timeWidth = 26"
definition gameTypeWidth :: nat where "gameTypeWidth = 18"
definition pidWidth :: nat where "pidWidth = 7"

definition format :: "string \<Rightarrow> string \<Rightarrow> string \<Rightarrow> string \<Rightarrow> string" where
  "format time gameType pid gameInfo =
     setw_left timeWidth time @ setw_left gameTypeWidth gameType @ setw_left pidWidth pid @ gameInfo"

text \<open>\<^verbatim>\<open>std::to_string\<close> on an \<^verbatim>\<open>int\<close>: the decimal digits, behind a minus sign if negative.\<close>

definition digit_char :: "nat \<Rightarrow> char" where
  "digit_char d = ''0123456789'' ! d"

function digits :: "nat \<Rightarrow> string" where
  "digits n = (if n < 10 then [digit_char n] else digits (n div 10) @ [digit_char (n mod 10)])"
  by pat_completeness auto
termination
  by (relation "measure (\<lambda>n. n)") auto

declare digits.simps [simp del]

definition to_string :: "int \<Rightarrow> string" where
  "to_string n = (if n < 0 then ''-'' @ digits (nat (- n)) else digits (nat n))"

subsection \<open>Game\<close>

text \<open>
  The base class. The reference \<^verbatim>\<open>stats\<close> is modelled by the object it refers to. The
  field \<^verbatim>\<open>fuzzyAllowed\<close> of the game is \<open>game_fuzzyAllowed\<close>, apart from the one of the
  snippet. The derived classes are extensions of the record.
\<close>

record Game =
  repo :: CodeRepo
  snippet :: CodeSnippet
  stats :: StatisticsRepo
  pid :: string
  guesses :: int
  game_fuzzyAllowed :: bool
  showPID :: bool

text \<open>
  \<^verbatim>\<open>while(count--) snippet.reveal();\<close> runs \<open>count\<close> times for \<open>count \<ge> 0\<close>. From a
  negative \<open>count\<close> the decrement would go on until it overflows: \<open>None\<close>.
\<close>

definition reveal_while :: "(nat \<Rightarrow> nat) \<Rightarrow> int \<Rightarrow> CodeSnippet \<Rightarrow> CodeSnippet option" where
  "reveal_while rnd count sn =
     (if count < 0 then None else for_loop 0 (nat count) (\<lambda>k sn. reveal (rnd k) sn) sn)"

text \<open>
  \<^verbatim>\<open>Game::makeGuess\<close>. The virtual \<^verbatim>\<open>revealTimes\<close> of the derived class is the argument
  \<open>revealTimes\<close>, which returns the count and the updated game; \<open>rnd k\<close> is the number
  that the generator yields for the \<open>k\<close>-th call of \<open>reveal\<close>.
\<close>

definition makeGuess ::
  "('a Game_scheme \<Rightarrow> int \<times> 'a Game_scheme) \<Rightarrow> (nat \<Rightarrow> nat) \<Rightarrow> string \<Rightarrow> 'a Game_scheme \<Rightarrow>
     (string list \<times> 'a Game_scheme) option" where
  "makeGuess revealTimes rnd gs g =
     (if \<not> showPID g \<and> gs = ''P'' then
        Some ([''PID showing enabled''], g\<lparr>showPID := True\<rparr>)
      else if \<not> game_fuzzyAllowed g \<and> gs = ''F'' then
        Some ([''Fuzzy match enabled''], g\<lparr>game_fuzzyAllowed := True\<rparr>)
      else do {
        (result, sn) \<leftarrow> guess gs (snippet g);
        let g = g\<lparr>snippet := sn\<rparr>;
        if fst result = - 1 then
          Some ([''Guess must be at least '' @ to_string (getMinLen (snippet g)) @ '' chars''], g)
        else do {
          let g = g\<lparr>guesses := guesses g + 1\<rparr>;
          let (count, g) = revealTimes g;
          sn \<leftarrow> reveal_while rnd count (snippet g);
          let g = g\<lparr>snippet := sn\<rparr>;
          let msg = to_string (fst result) @ '' matches found'';
          let msg = (if snd result \<noteq> - 1
                     then msg @ '', '' @ to_string (snd result) @ '' fuzzy matches found''
                     else msg);
          let msg = msg @ ''.'';
          Some ([msg], g) } })"

definition isFinished :: "'a Game_scheme \<Rightarrow> bool option" where
  "isFinished g = check (snippet g)"

subsection \<open>guessLimitedGame\<close>

record guessLimitedGame = Game +
  maxGuesses :: int

definition revealGuesses :: int where "revealGuesses = 5"

text \<open>
  \<^verbatim>\<open>start\<close>: \<open>rnd\<close> is the number the generator yields for \<^verbatim>\<open>repo.random()\<close>. The result
  is the exception of \<^verbatim>\<open>loadSnippet\<close> or the returned flag with the updated game. The
  division and the remainder of \<^verbatim>\<open>int\<close> truncate towards zero (\<open>sdiv\<close>, \<open>smod\<close>).
\<close>

definition guessLimitedGame_start ::
  "filesystem \<Rightarrow> nat \<Rightarrow> guessLimitedGame \<Rightarrow> AppException + (bool \<times> guessLimitedGame)" where
  "guessLimitedGame_start fs rnd g =
     (let g = g\<lparr>pid := CodeRepo_random rnd (repo g)\<rparr> in
      if pid g = [] then Inr (False, g)
      else
        (case loadSnippet fs (repo g) (pid g) (game_fuzzyAllowed g) of
           Inl e \<Rightarrow> Inl e
         | Inr sn \<Rightarrow>
             (let g = g\<lparr>snippet := sn\<rparr>;
                  total = getTotalNumber (snippet g);
                  g = g\<lparr>maxGuesses := max (total sdiv 3 + 5) 30\<rparr>
              in Inr (True, g))))"

definition guessLimitedGame_revealTimes :: "guessLimitedGame \<Rightarrow> int \<times> guessLimitedGame" where
  "guessLimitedGame_revealTimes g = (if guesses g smod revealGuesses = 0 then 1 else 0, g)"

definition guessLimitedGame_isOver :: "guessLimitedGame \<Rightarrow> bool" where
  "guessLimitedGame_isOver g = (guesses g \<ge> maxGuesses g)"

subsection \<open>timeAttackGame\<close>

text \<open>
  A \<^verbatim>\<open>steady_clock::time_point\<close> is the count of its ticks, of which there are
  \<open>ticks_per_second\<close> in a second (the clock of the standard library that the program is
  built with counts nanoseconds). The reading of the clock is the argument \<open>now\<close>.
  \<^verbatim>\<open>duration_cast<seconds>\<close> and the division of integers truncate towards zero.
\<close>

record timeAttackGame = Game +
  maxTime :: int
  startTime :: int
  lastRevealTime :: int

definition revealTime :: int where "revealTime = 10"

definition ticks_per_second :: int where "ticks_per_second = 1000000000"

definition duration_cast_seconds :: "int \<Rightarrow> int" where
  "duration_cast_seconds d = d sdiv ticks_per_second"

definition seconds :: "int \<Rightarrow> int" where
  "seconds n = n * ticks_per_second"

definition timeAttackGame_revealTimes :: "int \<Rightarrow> timeAttackGame \<Rightarrow> int \<times> timeAttackGame" where
  "timeAttackGame_revealTimes now g =
     (let result = duration_cast_seconds (now - lastRevealTime g) sdiv revealTime;
          g = g\<lparr>lastRevealTime := lastRevealTime g + seconds (revealTime * result)\<rparr>
      in (result, g))"

definition timeAttackGame_isOver :: "int \<Rightarrow> timeAttackGame \<Rightarrow> bool" where
  "timeAttackGame_isOver now g =
     (let elapsed = duration_cast_seconds (now - startTime g) in elapsed \<ge> maxTime g)"

subsection \<open>pointGame\<close>

record pointGame = Game +
  totalNumber :: int
  points :: double
  guessPenalty :: real
  pointFactor :: real
  rewardFactor :: real

text \<open>The two constants are the \<^verbatim>\<open>double\<close>s that the literals \<open>0.5\<close> and \<open>0.8\<close> denote.\<close>

definition showPidPenalty :: "(real \<Rightarrow> real) \<Rightarrow> real" where "showPidPenalty fl = fl 0.5"
definition fuzzyPenalty :: "(real \<Rightarrow> real) \<Rightarrow> real" where "fuzzyPenalty fl = fl 0.8"

text \<open>
  The constructor. The base constructor leaves the snippet default-constructed, the
  identifier empty and the guess counter at zero. \<^verbatim>\<open>totalNumber\<close> is not initialised:
  its indeterminate value is the argument \<open>indeterminate\<close>.
\<close>

definition pointGame_new ::
  "CodeRepo \<Rightarrow> StatisticsRepo \<Rightarrow> bool \<Rightarrow> bool \<Rightarrow> real \<Rightarrow> real \<Rightarrow> real \<Rightarrow> int \<Rightarrow>
     AppException + pointGame" where
  "pointGame_new repo0 stats0 fuzzy show0 penalty pfactor rfactor indeterminate =
     (if penalty \<le> 0 then Inl (AppException_new ''Penalty must be positive'')
      else if pfactor \<le> 0 then Inl (AppException_new ''Point factor must be positive'')
      else if rfactor < 1.0 then Inl (AppException_new ''Reward factor must be not less than 1.0'')
      else Inr \<lparr>repo = repo0, snippet = CodeSnippet_default, stats = stats0, pid = [],
                guesses = 0, game_fuzzyAllowed = fuzzy, showPID = show0,
                totalNumber = indeterminate, points = Some 0,
                guessPenalty = penalty, pointFactor = pfactor, rewardFactor = rfactor\<rparr>)"

definition pointGame_start ::
  "filesystem \<Rightarrow> nat \<Rightarrow> pointGame \<Rightarrow> AppException + (bool \<times> pointGame)" where
  "pointGame_start fs rnd g =
     (let g = g\<lparr>pid := CodeRepo_random rnd (repo g)\<rparr> in
      if pid g = [] then Inr (False, g)
      else
        (case loadSnippet fs (repo g) (pid g) (game_fuzzyAllowed g) of
           Inl e \<Rightarrow> Inl e
         | Inr sn \<Rightarrow>
             (let g = g\<lparr>snippet := sn\<rparr>;
                  g = g\<lparr>totalNumber := getTotalNumber (snippet g)\<rparr>
              in Inr (True, g))))"

text \<open>
  \<^verbatim>\<open>calcPoint\<close>, with every operation rounded. The quotient by \<open>totalNumber = 0\<close> is
  not a finite number, and neither is anything computed from it. The outer \<open>None\<close> is an
  access out of range in \<^verbatim>\<open>getGuessedNumber\<close>.
\<close>

definition calcPoint :: "(real \<Rightarrow> real) \<Rightarrow> pointGame \<Rightarrow> pointGame option" where
  "calcPoint fl g = do {
     guessed \<leftarrow> getGuessedNumber (snippet g);
     let p = (if totalNumber g = 0 then None
              else Some (fl (fl (fl (fl (pointFactor g * of_int guessed) * of_int guessed)
                                 / of_int (totalNumber g))
                             - fl (guessPenalty g * of_int (guesses g)))));
     let p = (if showPID g then map_option (\<lambda>p. fl (p * showPidPenalty fl)) p else p);
     let p = (if game_fuzzyAllowed g then map_option (\<lambda>p. fl (p * fuzzyPenalty fl)) p else p);
     let p = (if guessed = totalNumber g then map_option (\<lambda>p. fl (p * rewardFactor g)) p else p);
     Some (g\<lparr>points := p\<rparr>) }"

definition pointGame_revealTimes :: "pointGame \<Rightarrow> int \<times> pointGame" where
  "pointGame_revealTimes g = (0, g)"

definition pointGame_isOver :: "pointGame \<Rightarrow> bool" where
  "pointGame_isOver g = False"

text \<open>
  \<^verbatim>\<open>saveStatistics\<close>, \<^verbatim>\<open>Win\<close> and \<^verbatim>\<open>Lose\<close>. \<open>fmt\<close> is \<^verbatim>\<open>std::to_string\<close> on a
  \<^verbatim>\<open>double\<close> and \<open>currentTime\<close> is the text that \<^verbatim>\<open>getTime()\<close> returns.
\<close>

definition pointGame_saveStatistics ::
  "(real \<Rightarrow> real) \<Rightarrow> (double \<Rightarrow> string) \<Rightarrow> string \<Rightarrow> bool \<Rightarrow> pointGame \<Rightarrow> pointGame option" where
  "pointGame_saveStatistics fl fmt currentTime isWin g = do {
     g \<leftarrow> calcPoint fl g;
     let gameType = ''point'';
     let gameShowType = ''Point'';
     let gameInfo = ''points: '' @ fmt (points g) @ '' '' @ (if isWin then ''Win'' else ''Lose'');
     let gameHistoryLine = format currentTime gameShowType (pid g) gameInfo;
     st \<leftarrow> addGame_double fl gameHistoryLine gameType (points g) (stats g);
     Some (g\<lparr>stats := st\<rparr>) }"

definition pointGame_Win ::
  "(real \<Rightarrow> real) \<Rightarrow> (double \<Rightarrow> string) \<Rightarrow> string \<Rightarrow> pointGame \<Rightarrow> (string \<times> pointGame) option" where
  "pointGame_Win fl fmt currentTime g = do {
     g \<leftarrow> pointGame_saveStatistics fl fmt currentTime True g;
     g \<leftarrow> calcPoint fl g;
     Some (''You achieved '' @ fmt (points g) @ '' points!'', g) }"

definition pointGame_Lose ::
  "(real \<Rightarrow> real) \<Rightarrow> (double \<Rightarrow> string) \<Rightarrow> string \<Rightarrow> pointGame \<Rightarrow> (string \<times> pointGame) option" where
  "pointGame_Lose fl fmt currentTime g = pointGame_Win fl fmt currentTime g"

subsection \<open>The vocabulary of the properties\<close>

text \<open>
  The window of a line at start \<open>j\<close>, the number of offsets at which a window differs
  from the guess, and the number of non-blank characters of the guess.
\<close>

definition window :: "string \<Rightarrow> nat \<Rightarrow> nat \<Rightarrow> string" where
  "window line j len = take len (drop j line)"

definition failCount :: "string \<Rightarrow> string \<Rightarrow> nat" where
  "failCount w g = length (filter (\<lambda>(c, gk). c \<noteq> gk) (zip w g))"

definition significant :: "string \<Rightarrow> nat" where
  "significant g = length (filter (\<lambda>gk. gk \<noteq> CHR '' '') g)"

text \<open>The window starts of a line, and the windows that match exactly or fuzzily.\<close>

definition window_starts :: "string \<Rightarrow> string \<Rightarrow> nat list" where
  "window_starts g line = [0..<nat (int (length line) - int (length g) + 1)]"

definition exact_hit :: "string \<Rightarrow> string \<Rightarrow> bool" where
  "exact_hit g w = (w = g)"

definition fuzzy_hit :: "string \<Rightarrow> string \<Rightarrow> bool" where
  "fuzzy_hit g w = (w \<noteq> g \<and> failCount w g \<le> 1 \<and> 2 \<le> significant g)"

definition exact_windows :: "string \<Rightarrow> string \<Rightarrow> nat" where
  "exact_windows g line =
     length (filter (\<lambda>j. exact_hit g (window line j (length g))) (window_starts g line))"

definition fuzzy_windows :: "string \<Rightarrow> string \<Rightarrow> nat" where
  "fuzzy_windows g line =
     length (filter (\<lambda>j. fuzzy_hit g (window line j (length g))) (window_starts g line))"

text \<open>
  What one call of \<open>guess\<close> makes of a position \<open>p\<close> of a line whose state was \<open>old\<close>,
  with \<open>js\<close> the window starts of the line: a position inside a window that matches
  exactly is exact; otherwise, with fuzzy matching on, an unguessed position inside a window
  that matches fuzzily is fuzzy; every other position keeps its state.
\<close>

definition covers :: "nat \<Rightarrow> nat \<Rightarrow> nat \<Rightarrow> bool" where
  "covers j len p = (j \<le> p \<and> p < j + len)"

definition covered_exact :: "string \<Rightarrow> string \<Rightarrow> nat list \<Rightarrow> nat \<Rightarrow> bool" where
  "covered_exact g line js p =
     (\<exists>j \<in> set js. covers j (length g) p \<and> exact_hit g (window line j (length g)))"

definition covered_fuzzy :: "string \<Rightarrow> string \<Rightarrow> nat list \<Rightarrow> nat \<Rightarrow> bool" where
  "covered_fuzzy g line js p =
     (\<exists>j \<in> set js. covers j (length g) p \<and> fuzzy_hit g (window line j (length g)))"

definition guess_cell :: "string \<Rightarrow> bool \<Rightarrow> string \<Rightarrow> nat list \<Rightarrow> int \<Rightarrow> nat \<Rightarrow> int" where
  "guess_cell g fuzzy line js old p =
     (if covered_exact g line js p then EXACT_MATCH
      else if fuzzy \<and> old = UNGUESSED \<and> covered_fuzzy g line js p then FUZZY_MATCH
      else old)"

text \<open>
  The class invariant of \<^verbatim>\<open>CodeSnippet\<close>: the state grid has the shape of the buffer.
\<close>

definition same_shape :: "int list list \<Rightarrow> int list list \<Rightarrow> bool" where
  "same_shape st st' = (map length st' = map length st)"

definition shape_ok :: "CodeSnippet \<Rightarrow> bool" where
  "shape_ok s = (map length (state s) = map length (code s))"

text \<open>
  The order of the reveal states: an exact position stays exact, and a fuzzy position
  stays fuzzy or becomes exact.
\<close>

definition mono_cell :: "int \<Rightarrow> int \<Rightarrow> bool" where
  "mono_cell a b = ((a = EXACT_MATCH \<longrightarrow> b = EXACT_MATCH)
                  \<and> (a = FUZZY_MATCH \<longrightarrow> b = FUZZY_MATCH \<or> b = EXACT_MATCH))"

definition mono_state :: "int list list \<Rightarrow> int list list \<Rightarrow> bool" where
  "mono_state st st' = list_all2 (list_all2 mono_cell) st st'"

text \<open>The operations on the reveal grid, and a sequence of them run in order.\<close>

datatype operation = Guess string | Reveal nat

fun apply_operation :: "operation \<Rightarrow> CodeSnippet \<Rightarrow> CodeSnippet option" where
  "apply_operation (Guess g) s = map_option snd (guess g s)"
| "apply_operation (Reveal rnd) s = reveal rnd s"

fun run :: "operation list \<Rightarrow> CodeSnippet \<Rightarrow> CodeSnippet option" where
  "run [] s = Some s"
| "run (x # xs) s = (case apply_operation x s of None \<Rightarrow> None | Some s' \<Rightarrow> run xs s')"

subsection \<open>Example objects\<close>

text \<open>A snippet of two lines, as \<^verbatim>\<open>loadFromFile\<close> pads them, with nothing guessed.\<close>

definition example_snippet :: CodeSnippet where
  "example_snippet =
     \<lparr>path = ''repo/P1001.txt'',
      code = [''int ine x  '', ''in  ''],
      state = [[0, 0, 0, 0, 0, 0, 0, 0, 0, 0, 0], [0, 0, 0, 0]],
      fuzzyAllowed = True\<rparr>"

text \<open>A state grid of the same shape in which earlier guesses have left fuzzy marks.\<close>

definition example_grid :: "int list list" where
  "example_grid = [[1, 1, 0, 0, 1, 1, 1, 0, 0, 0, 0], [1, 1, 1, 0]]"

text \<open>The snippet of two lines with those fuzzy marks as its state.\<close>

definition example_marked :: CodeSnippet where
  "example_marked = example_snippet\<lparr>state := example_grid\<rparr>"

text \<open>A snippet of one line with every non-blank position guessed.\<close>

definition example_complete :: CodeSnippet where
  "example_complete =
     \<lparr>path = ''repo/P1003.txt'', code = [''ab  ''], state = [[2, 2, 0, 0]], fuzzyAllowed = True\<rparr>"

text \<open>A repository of two snippets, the second with sixty non-blank characters.\<close>

definition example_repo :: CodeRepo where
  "example_repo = \<lparr>root = ''repo'', cacheVec = [''P1001'', ''P1002'']\<rparr>"

definition example_fs :: filesystem where
  "example_fs p =
     (if p = ''repo/P1001.txt'' then Some [''int ine x'', ''in'']
      else if p = ''repo/P1002.txt'' then Some (replicate 3 (replicate 20 CHR ''x''))
      else None)"

definition example_stats :: StatisticsRepo where
  "example_stats =
     \<lparr>totalGames = 0, guessLimitedGames = 0, timeAttackGames = 0, pointGames = 0,
      guessLimitedWins = 0, timeAttackWins = 0, totalPoints = Some 0, gameHistory = []\<rparr>"

definition example_rnd :: "nat \<Rightarrow> nat" where
  "example_rnd k = 7 + k"

text \<open>A point game after ten guesses that matched nothing, as the console starts it.\<close>

definition example_pointGame :: pointGame where
  "example_pointGame =
     \<lparr>repo = example_repo, snippet = example_snippet, stats = example_stats, pid = ''P1001'',
      guesses = 10, game_fuzzyAllowed = False, showPID = False,
      totalNumber = 9, points = Some 0,
      guessPenalty = 100, pointFactor = 500, rewardFactor = 1.5\<rparr>"

text \<open>A point game on a snippet of a hundred characters, all guessed, after ten guesses.\<close>

definition example_pointGame_full :: pointGame where
  "example_pointGame_full =
     \<lparr>repo = example_repo,
      snippet = \<lparr>path = ''repo/P1004.txt'', code = [replicate 100 CHR ''x'' @ ''  ''],
                 state = [replicate 100 2 @ [0, 0]], fuzzyAllowed = False\<rparr>,
      stats = example_stats, pid = ''P1004'',
      guesses = 10, game_fuzzyAllowed = False, showPID = False,
      totalNumber = 100, points = Some 0,
      guessPenalty = 100, pointFactor = 500, rewardFactor = 1.5\<rparr>"

text \<open>A guess-limited game before \<open>start\<close>.\<close>

definition example_guessLimitedGame :: guessLimitedGame where
  "example_guessLimitedGame =
     \<lparr>repo = example_repo, snippet = CodeSnippet_default, stats = example_stats, pid = [],
      guesses = 0, game_fuzzyAllowed = True, showPID = True, maxGuesses = 0\<rparr>"

text \<open>A time-attack game whose last assist was five seconds after its start.\<close>

definition example_timeAttackGame :: timeAttackGame where
  "example_timeAttackGame =
     \<lparr>repo = example_repo, snippet = example_snippet, stats = example_stats, pid = ''P1001'',
      guesses = 3, game_fuzzyAllowed = True, showPID = True,
      maxTime = 60, startTime = 0, lastRevealTime = 5000000000\<rparr>"

text \<open>
  The positions of a line that are not blank and exactly guessed, and those that are not
  blank and not exactly guessed (the candidates of \<open>reveal\<close>), with their numbers over
  the snippet.
\<close>

definition guessed_in_line :: "CodeSnippet \<Rightarrow> nat \<Rightarrow> nat list" where
  "guessed_in_line s i =
     filter (\<lambda>j. code s ! i ! j \<noteq> CHR '' '' \<and> state s ! i ! j = EXACT_MATCH)
       [0..<length (code s ! i)]"

definition guessed_count :: "CodeSnippet \<Rightarrow> nat" where
  "guessed_count s = sum_list (map (\<lambda>i. length (guessed_in_line s i)) [0..<length (code s)])"

definition candidates_in_line :: "CodeSnippet \<Rightarrow> nat \<Rightarrow> nat list" where
  "candidates_in_line s i =
     filter (\<lambda>j. code s ! i ! j \<noteq> CHR '' '' \<and> state s ! i ! j \<noteq> EXACT_MATCH)
       [0..<length (code s ! i)]"

definition candidates :: "CodeSnippet \<Rightarrow> (nat \<times> nat) list" where
  "candidates s =
     concat (map (\<lambda>i. map (Pair i) (candidates_in_line s i)) [0..<length (code s)])"

text \<open>The points that \<open>calcPoint\<close> stores, as a function of the number of guessed characters.\<close>

definition point_value :: "(real \<Rightarrow> real) \<Rightarrow> pointGame \<Rightarrow> int \<Rightarrow> double" where
  "point_value fl g guessed =
     (let p = (if totalNumber g = 0 then None
               else Some (fl (fl (fl (fl (pointFactor g * of_int guessed) * of_int guessed)
                                  / of_int (totalNumber g))
                              - fl (guessPenalty g * of_int (guesses g)))));
          p = (if showPID g then map_option (\<lambda>p. fl (p * showPidPenalty fl)) p else p);
          p = (if game_fuzzyAllowed g then map_option (\<lambda>p. fl (p * fuzzyPenalty fl)) p else p);
          p = (if guessed = totalNumber g then map_option (\<lambda>p. fl (p * rewardFactor g)) p else p)
      in p)"

text \<open>
  The formula of the points on the reals, and the real numbers that the computation of it
  passes through: where the rounding leaves all of them as they are, no operation of
  \<open>calcPoint\<close> rounds.
\<close>

definition point_ideal :: "pointGame \<Rightarrow> int \<Rightarrow> real" where
  "point_ideal g guessed =
     (pointFactor g * (of_int guessed)\<^sup>2 / of_int (totalNumber g)
        - guessPenalty g * of_int (guesses g))
     * (if showPID g then 0.5 else 1)
     * (if game_fuzzyAllowed g then 0.8 else 1)
     * (if guessed = totalNumber g then rewardFactor g else 1)"

definition point_intermediates :: "pointGame \<Rightarrow> int \<Rightarrow> real list" where
  "point_intermediates g guessed =
     (let r1 = pointFactor g * of_int guessed;
          r2 = r1 * of_int guessed;
          r3 = r2 / of_int (totalNumber g);
          r4 = guessPenalty g * of_int (guesses g);
          r5 = r3 - r4;
          r6 = (if showPID g then r5 * 0.5 else r5);
          r7 = (if game_fuzzyAllowed g then r6 * 0.8 else r6);
          r8 = (if guessed = totalNumber g then r7 * rewardFactor g else r7)
      in [r1, r2, r3, r4, r5, r6, r7, r8]
         @ (if showPID g then [0.5] else []) @ (if game_fuzzyAllowed g then [0.8] else []))"

text \<open>
  A rounding to use in examples: to the nearest multiple of \<open>1/1024\<close>. It leaves the
  whole numbers as they are.
\<close>

definition example_fl :: "real \<Rightarrow> real" where
  "example_fl x = of_int \<lfloor>x * 1024 + 1 / 2\<rfloor> / 1024"

text \<open>
  A stand-in for \<^verbatim>\<open>std::to_string\<close> on a \<^verbatim>\<open>double\<close>, right on the whole numbers, and a
  text as \<^verbatim>\<open>getTime()\<close> returns it.
\<close>

definition example_to_string :: "double \<Rightarrow> string" where
  "example_to_string p = (case p of None \<Rightarrow> ''nan'' | Some x \<Rightarrow> to_string \<lfloor>x\<rfloor> @ ''.000000'')"

definition example_time :: string where
  "example_time = ''Tue May 13 17:21:15 2025 ''"

section \<open>Properties\<close>

subsection \<open>Loops\<close>

lemma for_loop_done: "n \<le> i \<Longrightarrow> for_loop i n body acc = Some acc"
  by (simp add: for_loop.simps)

lemma for_loop_step:
  "i < n \<Longrightarrow> for_loop i n body acc = (case body i acc of None \<Rightarrow> None | Some a \<Rightarrow> for_loop (Suc i) n body a)"
  by (subst for_loop.simps) simp

lemma for_loop_rule:
  assumes "I i acc" and "i \<le> n"
    and "\<And>k a. i \<le> k \<Longrightarrow> k < n \<Longrightarrow> I k a \<Longrightarrow> \<exists>a'. body k a = Some a' \<and> I (Suc k) a'"
  shows "\<exists>a'. for_loop i n body acc = Some a' \<and> I n a'"
  using assms
proof (induction i n body acc rule: for_loop.induct)
  case (1 i n body acc)
  show ?case
  proof (cases "i < n")
    case True
    from 1(4)[OF _ True 1(2)] obtain a where a: "body i acc = Some a" "I (Suc i) a" by auto
    have "\<exists>a'. for_loop (Suc i) n body a = Some a' \<and> I n a'"
      using 1(1)[OF True a(1) a(2)] True 1(4) by auto
    then show ?thesis using True a by (simp add: for_loop_step)
  next
    case False
    then have "i = n" using 1(3) by simp
    then show ?thesis using 1(2) by (simp add: for_loop_done)
  qed
qed

lemma same_shape_length: "same_shape st st' \<Longrightarrow> length st' = length st"
  unfolding same_shape_def by (metis length_map)

lemma same_shape_row: "same_shape st st' \<Longrightarrow> i < length st \<Longrightarrow> length (st' ! i) = length (st ! i)"
  unfolding same_shape_def by (metis length_map nth_map)

lemma same_shape_refl: "same_shape st st"
  by (simp add: same_shape_def)

lemma set_cell_Some:
  assumes "i < length st" "p < length (st ! i)"
  shows "\<exists>st'. set_cell st i p v = Some st' \<and> same_shape st st'
           \<and> (\<forall>i' p'. st' ! i' ! p' = (if i' = i \<and> p' = p then v else st ! i' ! p'))"
proof -
  let ?st' = "st[i := (st ! i)[p := v]]"
  have "set_cell st i p v = Some ?st'" using assms by (simp add: set_cell_def)
  moreover have "same_shape st ?st'"
    unfolding same_shape_def using assms
    by (intro nth_equalityI) (auto simp: nth_list_update)
  moreover have "\<forall>i' p'. ?st' ! i' ! p' = (if i' = i \<and> p' = p then v else st ! i' ! p')"
    using assms by (auto simp: nth_list_update)
  ultimately show ?thesis by blast
qed

lemma guess_exact_update_Some:
  assumes "i < length st" "j + len \<le> length (st ! i)"
  shows "\<exists>st'. guess_exact_update i j len st = Some st' \<and> same_shape st st'
           \<and> (\<forall>i' p. st' ! i' ! p =
                 (if i' = i \<and> j \<le> p \<and> p < j + len then EXACT_MATCH else st ! i' ! p))"
  unfolding guess_exact_update_def
proof (rule for_loop_rule
    [where I = "\<lambda>k a. same_shape st a \<and> (\<forall>i' p. a ! i' ! p =
                 (if i' = i \<and> j \<le> p \<and> p < j + k then EXACT_MATCH else st ! i' ! p))"])
  show "same_shape st st \<and> (\<forall>i' p. st ! i' ! p =
                 (if i' = i \<and> j \<le> p \<and> p < j + 0 then EXACT_MATCH else st ! i' ! p))"
    by (simp add: same_shape_refl)
  show "0 \<le> len" by simp
next
  fix k a
  assume k: "k < len" and I: "same_shape st a \<and> (\<forall>i' p. a ! i' ! p =
                 (if i' = i \<and> j \<le> p \<and> p < j + k then EXACT_MATCH else st ! i' ! p))"
  have sh: "same_shape st a" using I by blast
  have r: "i < length a" "j + k < length (a ! i)"
    using same_shape_length[OF sh] same_shape_row[OF sh assms(1)] assms k by simp_all
  from set_cell_Some[OF r, of EXACT_MATCH] obtain a' where
    a': "set_cell a i (j + k) EXACT_MATCH = Some a'" "same_shape a a'"
      "\<forall>i' p'. a' ! i' ! p' = (if i' = i \<and> p' = j + k then EXACT_MATCH else a ! i' ! p')"
    by blast
  have "same_shape st a'" using I a'(2) by (simp add: same_shape_def)
  moreover have "\<forall>i' p. a' ! i' ! p =
                 (if i' = i \<and> j \<le> p \<and> p < j + Suc k then EXACT_MATCH else st ! i' ! p)"
    using I a'(3) by auto
  ultimately show "\<exists>a'. set_cell a i (j + k) EXACT_MATCH = Some a' \<and> (same_shape st a' \<and> (\<forall>i' p. a' ! i' ! p =
                 (if i' = i \<and> j \<le> p \<and> p < j + Suc k then EXACT_MATCH else st ! i' ! p)))"
    using a'(1) by blast
qed

lemma get_cell_Some: "i < length st \<Longrightarrow> p < length (st ! i) \<Longrightarrow> get_cell st i p = Some (st ! i ! p)"
  by (simp add: get_cell_def)

lemma get_Some: "k < length xs \<Longrightarrow> get xs k = Some (xs ! k)"
  by (simp add: get_def)

lemma guess_fuzzy_update_Some:
  assumes "i < length st" "j + len \<le> length (st ! i)"
  shows "\<exists>st'. guess_fuzzy_update i j len st = Some st' \<and> same_shape st st'
           \<and> (\<forall>i' p. st' ! i' ! p =
                 (if i' = i \<and> j \<le> p \<and> p < j + len \<and> st ! i' ! p = UNGUESSED
                  then FUZZY_MATCH else st ! i' ! p))"
  unfolding guess_fuzzy_update_def
proof (rule for_loop_rule
    [where I = "\<lambda>k a. same_shape st a \<and> (\<forall>i' p. a ! i' ! p =
                 (if i' = i \<and> j \<le> p \<and> p < j + k \<and> st ! i' ! p = UNGUESSED
                  then FUZZY_MATCH else st ! i' ! p))"])
  show "same_shape st st \<and> (\<forall>i' p. st ! i' ! p =
                 (if i' = i \<and> j \<le> p \<and> p < j + 0 \<and> st ! i' ! p = UNGUESSED
                  then FUZZY_MATCH else st ! i' ! p))"
    by (simp add: same_shape_refl)
  show "0 \<le> len" by simp
next
  fix k a
  assume k: "k < len" and I: "same_shape st a \<and> (\<forall>i' p. a ! i' ! p =
                 (if i' = i \<and> j \<le> p \<and> p < j + k \<and> st ! i' ! p = UNGUESSED
                  then FUZZY_MATCH else st ! i' ! p))"
  have sh: "same_shape st a" using I by blast
  have r: "i < length a" "j + k < length (a ! i)"
    using same_shape_length[OF sh] same_shape_row[OF sh assms(1)] assms k by simp_all
  have cur: "a ! i ! (j + k) = st ! i ! (j + k)" using I by simp
  let ?body = "do { v \<leftarrow> get_cell a i (j + k);
                    if v = UNGUESSED then set_cell a i (j + k) FUZZY_MATCH else Some a }"
  let ?goal = "\<lambda>a'. same_shape st a' \<and> (\<forall>i' p. a' ! i' ! p =
                 (if i' = i \<and> j \<le> p \<and> p < j + Suc k \<and> st ! i' ! p = UNGUESSED
                  then FUZZY_MATCH else st ! i' ! p))"
  show "\<exists>a'. ?body = Some a' \<and> ?goal a'"
  proof (cases "st ! i ! (j + k) = UNGUESSED")
    case True
    from set_cell_Some[OF r, of FUZZY_MATCH] obtain a' where
      a': "set_cell a i (j + k) FUZZY_MATCH = Some a'" "same_shape a a'"
        "\<forall>i' p'. a' ! i' ! p' = (if i' = i \<and> p' = j + k then FUZZY_MATCH else a ! i' ! p')"
      by blast
    have "?body = Some a'" using True cur a'(1) r by (simp add: get_cell_Some)
    moreover have "same_shape st a'" using I a'(2) by (simp add: same_shape_def)
    moreover have "\<forall>i' p. a' ! i' ! p =
                 (if i' = i \<and> j \<le> p \<and> p < j + Suc k \<and> st ! i' ! p = UNGUESSED
                  then FUZZY_MATCH else st ! i' ! p)"
      using I a'(3) True by auto
    ultimately show ?thesis by blast
  next
    case False
    have "?body = Some a" using False cur r by (simp add: get_cell_Some)
    moreover have "\<forall>i' p. a ! i' ! p =
                 (if i' = i \<and> j \<le> p \<and> p < j + Suc k \<and> st ! i' ! p = UNGUESSED
                  then FUZZY_MATCH else st ! i' ! p)"
      using I False by (auto simp: less_Suc_eq)
    ultimately show ?thesis using I by blast
  qed
qed


lemma failCount_snoc:
  "length w = length g \<Longrightarrow> failCount (w @ [c]) (g @ [gk]) = failCount w g + (if c \<noteq> gk then 1 else 0)"
  by (simp add: failCount_def)

lemma significant_snoc:
  "significant (g @ [gk]) = significant g + (if gk \<noteq> CHR '' '' then 1 else 0)"
  by (simp add: significant_def)

lemma window_take_Suc:
  assumes "j + k < length line"
  shows "take (Suc k) (drop j line) = take k (drop j line) @ [line ! (j + k)]"
  using assms by (simp add: take_Suc_conv_app_nth)

lemma guess_fuzzy_counts_Some:
  assumes "j + length g \<le> length line"
  shows "guess_fuzzy_counts g line j (length g) =
           Some (int (failCount (window line j (length g)) g), int (significant g))"
proof -
  let ?I = "\<lambda>k (a :: int \<times> int). fst a = int (failCount (take k (drop j line)) (take k g))
                \<and> snd a = int (significant (take k g))"
  have "\<exists>a'. guess_fuzzy_counts g line j (length g) = Some a' \<and> ?I (length g) a'"
    unfolding guess_fuzzy_counts_def
  proof (rule for_loop_rule [where I = ?I])
    show "?I 0 (0, 0)" by (simp add: failCount_def significant_def)
    show "0 \<le> length g" by simp
  next
    fix k and a :: "int \<times> int"
    assume k: "k < length g" and I: "?I k a"
    obtain f c where a: "a = (f, c)" by (cases a)
    have kl: "j + k < length line" using k assms by simp
    have tg: "take (Suc k) g = take k g @ [g ! k]"
      using k by (simp add: take_Suc_conv_app_nth)
    have tw: "take (Suc k) (drop j line) = take k (drop j line) @ [line ! (j + k)]"
      by (rule window_take_Suc[OF kl])
    have len: "length (take k (drop j line)) = length (take k g)"
      using k kl by simp
    let ?a' = "(if line ! (j + k) \<noteq> g ! k then f + 1 else f,
                if g ! k \<noteq> CHR '' '' then c + 1 else c)"
    have "(case a of (failmatch, count) \<Rightarrow> do {
             gk \<leftarrow> get g k;
             let count = (if gk \<noteq> CHR '' '' then count + 1 else count);
             c \<leftarrow> get line (j + k);
             let failmatch = (if c \<noteq> gk then failmatch + 1 else failmatch);
             Some (failmatch, count) }) = Some ?a'"
      using k kl by (simp add: a get_Some)
    moreover have "?I (Suc k) ?a'"
      using I by (simp add: a tg tw failCount_snoc[OF len] significant_snoc)
    ultimately show "\<exists>a'. (case a of (failmatch, count) \<Rightarrow> do {
             gk \<leftarrow> get g k;
             let count = (if gk \<noteq> CHR '' '' then count + 1 else count);
             c \<leftarrow> get line (j + k);
             let failmatch = (if c \<noteq> gk then failmatch + 1 else failmatch);
             Some (failmatch, count) }) = Some a' \<and> ?I (Suc k) a'"
      by blast
  qed
  then obtain a' where a': "guess_fuzzy_counts g line j (length g) = Some a'" "?I (length g) a'"
    by blast
  have "a' = (int (failCount (window line j (length g)) g), int (significant g))"
    using a'(2) by (cases a') (simp add: window_def)
  then show ?thesis using a'(1) by simp
qed

lemma substr_Some: "j \<le> length line \<Longrightarrow> substr line j len = Some (window line j len)"
  by (simp add: substr_def window_def)

lemma guess_window_exact:
  assumes "i < length st" "length (st ! i) = length line" "j + length g \<le> length line"
    and "window line j (length g) = g"
  shows "\<exists>st'. guess_window g fuzzy line i j ((e, f), st) = Some ((e + 1, f), st')
           \<and> same_shape st st'
           \<and> (\<forall>i' p. st' ! i' ! p =
                 (if i' = i \<and> j \<le> p \<and> p < j + length g then EXACT_MATCH else st ! i' ! p))"
proof -
  have "j + length g \<le> length (st ! i)" using assms by simp
  from guess_exact_update_Some[OF assms(1) this] obtain st' where
    st': "guess_exact_update i j (length g) st = Some st'" "same_shape st st'"
      "\<forall>i' p. st' ! i' ! p =
                 (if i' = i \<and> j \<le> p \<and> p < j + length g then EXACT_MATCH else st ! i' ! p)"
    by blast
  have "guess_window g fuzzy line i j ((e, f), st) = Some ((e + 1, f), st')"
    using assms(3,4) st'(1) by (simp add: guess_window_def substr_Some)
  then show ?thesis using st' by blast
qed

lemma guess_window_not_fuzzy:
  assumes "j + length g \<le> length line" "window line j (length g) \<noteq> g" "\<not> fuzzy"
  shows "guess_window g fuzzy line i j (r, st) = Some (r, st)"
  using assms by (simp add: guess_window_def substr_Some)

lemma guess_window_fuzzy_hit:
  assumes "i < length st" "length (st ! i) = length line" "j + length g \<le> length line"
    and "window line j (length g) \<noteq> g" "fuzzy"
    and "failCount (window line j (length g)) g \<le> 1" "2 \<le> significant g"
  shows "\<exists>st'. guess_window g fuzzy line i j ((e, f), st) = Some ((e, f + 1), st')
           \<and> same_shape st st'
           \<and> (\<forall>i' p. st' ! i' ! p =
                 (if i' = i \<and> j \<le> p \<and> p < j + length g \<and> st ! i' ! p = UNGUESSED
                  then FUZZY_MATCH else st ! i' ! p))"
proof -
  have "j + length g \<le> length (st ! i)" using assms by simp
  from guess_fuzzy_update_Some[OF assms(1) this] obtain st' where
    st': "guess_fuzzy_update i j (length g) st = Some st'" "same_shape st st'"
      "\<forall>i' p. st' ! i' ! p =
                 (if i' = i \<and> j \<le> p \<and> p < j + length g \<and> st ! i' ! p = UNGUESSED
                  then FUZZY_MATCH else st ! i' ! p)"
    by blast
  have "guess_window g fuzzy line i j ((e, f), st) = Some ((e, f + 1), st')"
    using assms(3-7) st'(1)
    by (simp add: guess_window_def substr_Some guess_fuzzy_counts_Some FUZZY_FAIL_def FUZZY_COUNT_def)
  then show ?thesis using st' by blast
qed

lemma guess_window_fuzzy_miss:
  assumes "j + length g \<le> length line"
    and "window line j (length g) \<noteq> g" "fuzzy"
    and "\<not> (failCount (window line j (length g)) g \<le> 1 \<and> 2 \<le> significant g)"
  shows "guess_window g fuzzy line i j (r, st) = Some (r, st)"
  using assms
  by (auto simp: guess_window_def substr_Some guess_fuzzy_counts_Some FUZZY_FAIL_def FUZZY_COUNT_def)


lemma mono_cell_refl: "mono_cell a a"
  by (simp add: mono_cell_def)

lemma mono_cell_trans: "mono_cell a b \<Longrightarrow> mono_cell b c \<Longrightarrow> mono_cell a c"
  by (auto simp: mono_cell_def EXACT_MATCH_def FUZZY_MATCH_def)

lemma mono_state_refl: "mono_state st st"
  unfolding mono_state_def by (simp add: list_all2_refl mono_cell_refl)

lemma mono_row_trans:
  assumes "list_all2 mono_cell a b" "list_all2 mono_cell b c"
  shows "list_all2 mono_cell a c"
  by (rule list_all2_trans[OF _ assms]) (blast intro: mono_cell_trans)

lemma mono_state_trans:
  assumes "mono_state a b" "mono_state b c"
  shows "mono_state a c"
  using assms unfolding mono_state_def
  by (rule list_all2_trans[rotated]) (blast intro: mono_row_trans)

lemma mono_stateI:
  assumes "same_shape st st'" and "\<And>i p. mono_cell (st ! i ! p) (st' ! i ! p)"
  shows "mono_state st st'"
  unfolding mono_state_def list_all2_conv_all_nth
  using same_shape_length[OF assms(1)] same_shape_row[OF assms(1)] assms(2) by simp

lemma mono_state_shape: "mono_state st st' \<Longrightarrow> same_shape st st'"
  unfolding mono_state_def same_shape_def list_all2_conv_all_nth
  by (intro nth_equalityI) simp_all

lemma mono_state_nth:
  "mono_state st st' \<Longrightarrow> i < length st \<Longrightarrow> p < length (st ! i) \<Longrightarrow> mono_cell (st ! i ! p) (st' ! i ! p)"
  unfolding mono_state_def list_all2_conv_all_nth by simp

lemma guess_line_short:
  assumes "length line < length g"
  shows "guess_line g fuzzy line i acc = Some acc"
  using assms by (simp add: guess_line_def for_loop_done)

lemma guess_too_short: "int (length g) < MIN_LEN \<Longrightarrow> guess g s = Some ((- 1, - 1), s)"
  by (simp add: guess_def)


subsection \<open>One window, one line, one guess\<close>

lemma guess_window_step:
  assumes "i < length st" "length (st ! i) = length line" "j + length g \<le> length line"
  shows "\<exists>st'. guess_window g fuzzy line i j ((e, f), st) =
             Some ((e + (if exact_hit g (window line j (length g)) then 1 else 0),
                    f + (if fuzzy \<and> fuzzy_hit g (window line j (length g)) then 1 else 0)), st')
           \<and> mono_state st st'"
proof -
  let ?w = "window line j (length g)"
  consider (exact) "?w = g"
    | (off) "?w \<noteq> g" "\<not> fuzzy"
    | (hit) "?w \<noteq> g" "fuzzy" "failCount ?w g \<le> 1" "2 \<le> significant g"
    | (miss) "?w \<noteq> g" "fuzzy" "\<not> (failCount ?w g \<le> 1 \<and> 2 \<le> significant g)"
    by blast
  then show ?thesis
  proof cases
    case exact
    from guess_window_exact[OF assms exact, of fuzzy e f] obtain st' where
      st': "guess_window g fuzzy line i j ((e, f), st) = Some ((e + 1, f), st')" "same_shape st st'"
        "\<forall>i' p. st' ! i' ! p =
                 (if i' = i \<and> j \<le> p \<and> p < j + length g then EXACT_MATCH else st ! i' ! p)"
      by blast
    have "mono_state st st'"
      by (rule mono_stateI[OF st'(2)]) (simp add: st'(3) mono_cell_def)
    then show ?thesis using st'(1) exact by (auto simp: exact_hit_def fuzzy_hit_def)
  next
    case off
    then show ?thesis
      using guess_window_not_fuzzy[OF assms(3), of fuzzy i "(e, f)" st] mono_state_refl
      by (auto simp: exact_hit_def)
  next
    case hit
    from guess_window_fuzzy_hit[OF assms hit, of e f] obtain st' where
      st': "guess_window g fuzzy line i j ((e, f), st) = Some ((e, f + 1), st')" "same_shape st st'"
        "\<forall>i' p. st' ! i' ! p =
                 (if i' = i \<and> j \<le> p \<and> p < j + length g \<and> st ! i' ! p = UNGUESSED
                  then FUZZY_MATCH else st ! i' ! p)"
      by blast
    have "mono_state st st'"
      by (rule mono_stateI[OF st'(2)])
         (simp add: st'(3) mono_cell_def UNGUESSED_def EXACT_MATCH_def FUZZY_MATCH_def)
    then show ?thesis using st'(1) hit by (auto simp: exact_hit_def fuzzy_hit_def)
  next
    case miss
    then show ?thesis
      using guess_window_fuzzy_miss[OF assms(3), of fuzzy i "(e, f)" st] mono_state_refl
      by (auto simp: exact_hit_def fuzzy_hit_def)
  qed
qed

lemma guess_line_step:
  assumes "i < length st" "length (st ! i) = length line"
  shows "\<exists>st'. guess_line g fuzzy line i ((e, f), st) =
             Some ((e + int (exact_windows g line),
                    f + (if fuzzy then int (fuzzy_windows g line) else 0)), st')
           \<and> mono_state st st'"
proof -
  let ?n = "nat (int (length line) - int (length g) + 1)"
  let ?E = "\<lambda>k. int (length (filter (\<lambda>j. exact_hit g (window line j (length g))) [0..<k]))"
  let ?F = "\<lambda>k. int (length (filter (\<lambda>j. fuzzy_hit g (window line j (length g))) [0..<k]))"
  let ?I = "\<lambda>(k::nat) (a :: (int \<times> int) \<times> int list list).
              fst a = (e + ?E k, f + (if fuzzy then ?F k else 0)) \<and> mono_state st (snd a)"
  have "\<exists>a'. for_loop 0 ?n (guess_window g fuzzy line i) ((e, f), st) = Some a' \<and> ?I ?n a'"
  proof (rule for_loop_rule [where I = ?I])
    show "?I 0 ((e, f), st)" by (simp add: mono_state_refl)
    show "0 \<le> ?n" by simp
  next
    fix k and a :: "(int \<times> int) \<times> int list list"
    assume k: "k < ?n" and I: "?I k a"
    obtain r1 st1 where a: "a = (r1, st1)" by (cases a)
    have r1: "r1 = (e + ?E k, f + (if fuzzy then ?F k else 0))" using I a by simp
    have m: "mono_state st st1" using I a by simp
    have sh: "same_shape st st1" by (rule mono_state_shape[OF m])
    have 1: "i < length st1" using same_shape_length[OF sh] assms(1) by simp
    have 2: "length (st1 ! i) = length line" using same_shape_row[OF sh assms(1)] assms(2) by simp
    have 3: "k + length g \<le> length line" using k by linarith
    from guess_window_step[OF 1 2 3, of fuzzy "e + ?E k" "f + (if fuzzy then ?F k else 0)"]
    obtain st' where
      w: "guess_window g fuzzy line i k ((e + ?E k, f + (if fuzzy then ?F k else 0)), st1) =
            Some ((e + ?E k + (if exact_hit g (window line k (length g)) then 1 else 0),
                   f + (if fuzzy then ?F k else 0)
                     + (if fuzzy \<and> fuzzy_hit g (window line k (length g)) then 1 else 0)), st')"
        "mono_state st1 st'"
      by blast
    have "mono_state st st'" by (rule mono_state_trans[OF m w(2)])
    then have "?I (Suc k) ((e + ?E k + (if exact_hit g (window line k (length g)) then 1 else 0),
                   f + (if fuzzy then ?F k else 0)
                     + (if fuzzy \<and> fuzzy_hit g (window line k (length g)) then 1 else 0)), st')"
      by simp
    then show "\<exists>a'. guess_window g fuzzy line i k a = Some a' \<and> ?I (Suc k) a'"
      using w(1) a r1 by blast
  qed
  then show ?thesis
    by (auto simp: guess_line_def exact_windows_def fuzzy_windows_def window_starts_def)
qed

lemma shape_ok_length: "shape_ok s \<Longrightarrow> length (state s) = length (code s)"
  unfolding shape_ok_def by (metis length_map)

lemma shape_ok_row: "shape_ok s \<Longrightarrow> i < length (code s) \<Longrightarrow> length (state s ! i) = length (code s ! i)"
  unfolding shape_ok_def by (metis length_map nth_map)

lemma shape_ok_update:
  "shape_ok s \<Longrightarrow> same_shape (state s) st' \<Longrightarrow> shape_ok (s\<lparr>state := st'\<rparr>)"
  by (simp add: shape_ok_def same_shape_def)

lemma guess_result:
  assumes "shape_ok s" "\<not> int (length g) < MIN_LEN"
  shows "\<exists>st'. guess g s =
             Some ((int (sum_list (map (exact_windows g) (code s))),
                    if fuzzyAllowed s then int (sum_list (map (fuzzy_windows g) (code s))) else - 1),
                   s\<lparr>state := st'\<rparr>)
           \<and> mono_state (state s) st'"
proof -
  let ?n = "length (code s)"
  let ?r0 = "(0 :: int, if \<not> fuzzyAllowed s then - 1 else 0 :: int)"
  let ?body = "\<lambda>i acc. do { line \<leftarrow> get (code s) i; guess_line g (fuzzyAllowed s) line i acc }"
  let ?E = "\<lambda>k. int (sum_list (map (exact_windows g) (take k (code s))))"
  let ?F = "\<lambda>k. int (sum_list (map (fuzzy_windows g) (take k (code s))))"
  let ?I = "\<lambda>(k::nat) (a :: (int \<times> int) \<times> int list list).
              fst a = (?E k, if fuzzyAllowed s then ?F k else - 1) \<and> mono_state (state s) (snd a)"
  have "\<exists>a'. for_loop 0 ?n ?body (?r0, state s) = Some a' \<and> ?I ?n a'"
  proof (rule for_loop_rule [where I = ?I])
    show "?I 0 (?r0, state s)" by (simp add: mono_state_refl)
    show "0 \<le> ?n" by simp
  next
    fix k and a :: "(int \<times> int) \<times> int list list"
    assume k: "k < ?n" and I: "?I k a"
    obtain r1 st1 where a: "a = (r1, st1)" by (cases a)
    have r1: "r1 = (?E k, if fuzzyAllowed s then ?F k else - 1)" using I a by simp
    have m: "mono_state (state s) st1" using I a by simp
    have sh: "same_shape (state s) st1" by (rule mono_state_shape[OF m])
    have ks: "k < length (state s)" using shape_ok_length[OF assms(1)] k by simp
    have 1: "k < length st1" using same_shape_length[OF sh] ks by simp
    have 2: "length (st1 ! k) = length (code s ! k)"
      using same_shape_row[OF sh ks] shape_ok_row[OF assms(1) k] by simp
    from guess_line_step[OF 1 2, of g "fuzzyAllowed s" "?E k" "if fuzzyAllowed s then ?F k else - 1"]
    obtain st' where
      w: "guess_line g (fuzzyAllowed s) (code s ! k) k
            ((?E k, if fuzzyAllowed s then ?F k else - 1), st1) =
            Some ((?E k + int (exact_windows g (code s ! k)),
                   (if fuzzyAllowed s then ?F k else - 1)
                     + (if fuzzyAllowed s then int (fuzzy_windows g (code s ! k)) else 0)), st')"
        "mono_state st1 st'"
      by blast
    have tk: "take (Suc k) (code s) = take k (code s) @ [code s ! k]"
      using k by (simp add: take_Suc_conv_app_nth)
    have "mono_state (state s) st'" by (rule mono_state_trans[OF m w(2)])
    then have "?I (Suc k) ((?E k + int (exact_windows g (code s ! k)),
                   (if fuzzyAllowed s then ?F k else - 1)
                     + (if fuzzyAllowed s then int (fuzzy_windows g (code s ! k)) else 0)), st')"
      by (simp add: tk)
    moreover have "?body k a = Some ((?E k + int (exact_windows g (code s ! k)),
                   (if fuzzyAllowed s then ?F k else - 1)
                     + (if fuzzyAllowed s then int (fuzzy_windows g (code s ! k)) else 0)), st')"
      using w(1) a r1 k by (simp add: get_Some)
    ultimately show "\<exists>a'. ?body k a = Some a' \<and> ?I (Suc k) a'" by blast
  qed
  then obtain r st' where
    l: "for_loop 0 ?n ?body (?r0, state s) = Some (r, st')"
      "r = (?E ?n, if fuzzyAllowed s then ?F ?n else - 1)" "mono_state (state s) st'"
    by auto
  have g: "guess g s = Some (r, s\<lparr>state := st'\<rparr>)"
    using assms(2) l(1) by (simp add: guess_def Let_def)
  have r: "r = (int (sum_list (map (exact_windows g) (code s))),
                if fuzzyAllowed s then int (sum_list (map (fuzzy_windows g) (code s))) else - 1)"
    using l(2) by (simp cong: if_cong)
  show ?thesis using g r l(3) by (intro exI[of _ st']) simp
qed

lemma guess_mono:
  assumes "shape_ok s"
  shows "\<exists>r st'. guess g s = Some (r, s\<lparr>state := st'\<rparr>) \<and> mono_state (state s) st'"
proof (cases "int (length g) < MIN_LEN")
  case True
  have "guess g s = Some ((- 1, - 1), s\<lparr>state := state s\<rparr>)"
    using True by (simp add: guess_def)
  then show ?thesis using mono_state_refl by blast
next
  case False
  from guess_result[OF assms False] show ?thesis by blast
qed

subsection \<open>The grid that a guess returns\<close>

lemma guess_window_cells:
  assumes "i < length st" "length (st ! i) = length line" "j + length g \<le> length line"
  shows "\<exists>st'. guess_window g fuzzy line i j ((e, f), st) =
             Some ((e + (if exact_hit g (window line j (length g)) then 1 else 0),
                    f + (if fuzzy \<and> fuzzy_hit g (window line j (length g)) then 1 else 0)), st')
           \<and> same_shape st st'
           \<and> (\<forall>i' p. st' ! i' ! p =
                 (if i' = i \<and> covers j (length g) p
                  then (if exact_hit g (window line j (length g)) then EXACT_MATCH
                        else if fuzzy \<and> fuzzy_hit g (window line j (length g))
                                \<and> st ! i' ! p = UNGUESSED
                        then FUZZY_MATCH else st ! i' ! p)
                  else st ! i' ! p))"
proof -
  let ?w = "window line j (length g)"
  consider (exact) "?w = g"
    | (off) "?w \<noteq> g" "\<not> fuzzy"
    | (hit) "?w \<noteq> g" "fuzzy" "failCount ?w g \<le> 1" "2 \<le> significant g"
    | (miss) "?w \<noteq> g" "fuzzy" "\<not> (failCount ?w g \<le> 1 \<and> 2 \<le> significant g)"
    by blast
  then show ?thesis
  proof cases
    case exact
    from guess_window_exact[OF assms exact, of fuzzy e f] obtain st' where
      st': "guess_window g fuzzy line i j ((e, f), st) = Some ((e + 1, f), st')" "same_shape st st'"
        "\<forall>i' p. st' ! i' ! p =
                 (if i' = i \<and> j \<le> p \<and> p < j + length g then EXACT_MATCH else st ! i' ! p)"
      by blast
    have h: "exact_hit g ?w" "\<not> fuzzy_hit g ?w"
      using exact by (simp_all add: exact_hit_def fuzzy_hit_def)
    show ?thesis
      using st' h by (intro exI[of _ st']) (simp add: covers_def)
  next
    case off
    have h: "\<not> exact_hit g ?w" using off by (simp add: exact_hit_def)
    show ?thesis
      using guess_window_not_fuzzy[OF assms(3) off, of i "(e, f)" st] h off(2)
      by (intro exI[of _ st]) (simp add: same_shape_refl)
  next
    case hit
    from guess_window_fuzzy_hit[OF assms hit, of e f] obtain st' where
      st': "guess_window g fuzzy line i j ((e, f), st) = Some ((e, f + 1), st')" "same_shape st st'"
        "\<forall>i' p. st' ! i' ! p =
                 (if i' = i \<and> j \<le> p \<and> p < j + length g \<and> st ! i' ! p = UNGUESSED
                  then FUZZY_MATCH else st ! i' ! p)"
      by blast
    have h: "\<not> exact_hit g ?w" "fuzzy_hit g ?w"
      using hit by (simp_all add: exact_hit_def fuzzy_hit_def)
    show ?thesis
      using st' h hit(2) by (intro exI[of _ st']) (simp add: covers_def)
  next
    case miss
    have h: "\<not> exact_hit g ?w" "\<not> fuzzy_hit g ?w"
      using miss by (simp_all add: exact_hit_def fuzzy_hit_def)
    show ?thesis
      using guess_window_fuzzy_miss[OF assms(3) miss, of i "(e, f)" st] h
      by (intro exI[of _ st]) (simp add: same_shape_refl)
  qed
qed

lemma covered_exact_Suc:
  "covered_exact g line [0..<Suc k] p \<longleftrightarrow>
     covered_exact g line [0..<k] p
     \<or> (covers k (length g) p \<and> exact_hit g (window line k (length g)))"
  by (auto simp: covered_exact_def less_Suc_eq)

lemma covered_fuzzy_Suc:
  "covered_fuzzy g line [0..<Suc k] p \<longleftrightarrow>
     covered_fuzzy g line [0..<k] p
     \<or> (covers k (length g) p \<and> fuzzy_hit g (window line k (length g)))"
  by (auto simp: covered_fuzzy_def less_Suc_eq)

lemma exact_not_fuzzy: "exact_hit g w \<Longrightarrow> \<not> fuzzy_hit g w"
  by (simp add: exact_hit_def fuzzy_hit_def)

lemma guess_cell_step:
  fixes c :: int
  assumes "c = guess_cell g fuzzy line [0..<k] old p"
  shows "(if covers k (length g) p
          then (if exact_hit g (window line k (length g)) then EXACT_MATCH
                else if fuzzy \<and> fuzzy_hit g (window line k (length g)) \<and> c = UNGUESSED
                then FUZZY_MATCH else c)
          else c)
         = guess_cell g fuzzy line [0..<Suc k] old p"
  unfolding assms guess_cell_def covered_exact_Suc covered_fuzzy_Suc
  using exact_not_fuzzy[of g "window line k (length g)"]
  by (auto simp: EXACT_MATCH_def FUZZY_MATCH_def UNGUESSED_def)

lemma guess_line_cells:
  assumes "i < length st" "length (st ! i) = length line"
  shows "\<exists>st'. guess_line g fuzzy line i ((e, f), st) =
             Some ((e + int (exact_windows g line),
                    f + (if fuzzy then int (fuzzy_windows g line) else 0)), st')
           \<and> same_shape st st'
           \<and> (\<forall>i' p. st' ! i' ! p =
                 (if i' = i then guess_cell g fuzzy line (window_starts g line) (st ! i ! p) p
                  else st ! i' ! p))"
proof -
  let ?n = "nat (int (length line) - int (length g) + 1)"
  let ?E = "\<lambda>k. int (length (filter (\<lambda>j. exact_hit g (window line j (length g))) [0..<k]))"
  let ?F = "\<lambda>k. int (length (filter (\<lambda>j. fuzzy_hit g (window line j (length g))) [0..<k]))"
  let ?C = "\<lambda>k (a :: int list list). \<forall>i' p. a ! i' ! p =
                 (if i' = i then guess_cell g fuzzy line [0..<k] (st ! i ! p) p else st ! i' ! p)"
  let ?I = "\<lambda>(k::nat) (a :: (int \<times> int) \<times> int list list).
              fst a = (e + ?E k, f + (if fuzzy then ?F k else 0)) \<and> same_shape st (snd a)
              \<and> ?C k (snd a)"
  have "\<exists>a'. for_loop 0 ?n (guess_window g fuzzy line i) ((e, f), st) = Some a' \<and> ?I ?n a'"
  proof (rule for_loop_rule [where I = ?I])
    show "?I 0 ((e, f), st)"
      by (simp add: same_shape_refl guess_cell_def covered_exact_def covered_fuzzy_def)
    show "0 \<le> ?n" by simp
  next
    fix k and a :: "(int \<times> int) \<times> int list list"
    assume k: "k < ?n" and I: "?I k a"
    obtain r1 st1 where a: "a = (r1, st1)" by (cases a)
    have r1: "r1 = (e + ?E k, f + (if fuzzy then ?F k else 0))" using I a by simp
    have sh: "same_shape st st1" using I a by simp
    have C: "?C k st1" using I a by simp
    have 1: "i < length st1" using same_shape_length[OF sh] assms(1) by simp
    have 2: "length (st1 ! i) = length line" using same_shape_row[OF sh assms(1)] assms(2) by simp
    have 3: "k + length g \<le> length line" using k by linarith
    let ?w = "window line k (length g)"
    from guess_window_cells[OF 1 2 3, of fuzzy "e + ?E k" "f + (if fuzzy then ?F k else 0)"]
    obtain st' where
      w: "guess_window g fuzzy line i k ((e + ?E k, f + (if fuzzy then ?F k else 0)), st1) =
            Some ((e + ?E k + (if exact_hit g ?w then 1 else 0),
                   f + (if fuzzy then ?F k else 0)
                     + (if fuzzy \<and> fuzzy_hit g ?w then 1 else 0)), st')"
        "same_shape st1 st'"
        "\<forall>i' p. st' ! i' ! p =
                 (if i' = i \<and> covers k (length g) p
                  then (if exact_hit g ?w then EXACT_MATCH
                        else if fuzzy \<and> fuzzy_hit g ?w \<and> st1 ! i' ! p = UNGUESSED
                        then FUZZY_MATCH else st1 ! i' ! p)
                  else st1 ! i' ! p)"
      by blast
    have sh': "same_shape st st'" using sh w(2) by (simp add: same_shape_def)
    have C': "?C (Suc k) st'"
    proof (intro allI)
      fix i' p
      show "st' ! i' ! p =
                 (if i' = i then guess_cell g fuzzy line [0..<Suc k] (st ! i ! p) p
                  else st ! i' ! p)"
      proof (cases "i' = i")
        case True
        have c: "st1 ! i ! p = guess_cell g fuzzy line [0..<k] (st ! i ! p) p"
          using C by simp
        have "st' ! i ! p =
                (if covers k (length g) p
                 then (if exact_hit g ?w then EXACT_MATCH
                       else if fuzzy \<and> fuzzy_hit g ?w \<and> st1 ! i ! p = UNGUESSED
                       then FUZZY_MATCH else st1 ! i ! p)
                 else st1 ! i ! p)"
          using w(3) by simp
        also have "\<dots> = guess_cell g fuzzy line [0..<Suc k] (st ! i ! p) p"
          by (rule guess_cell_step[OF c])
        finally show ?thesis using True by simp
      next
        case False
        then show ?thesis using w(3) C by simp
      qed
    qed
    have "?I (Suc k) ((e + ?E k + (if exact_hit g ?w then 1 else 0),
                   f + (if fuzzy then ?F k else 0)
                     + (if fuzzy \<and> fuzzy_hit g ?w then 1 else 0)), st')"
      using sh' C' by simp
    then show "\<exists>a'. guess_window g fuzzy line i k a = Some a' \<and> ?I (Suc k) a'"
      using w(1) a r1 by blast
  qed
  then show ?thesis
    by (auto simp: guess_line_def exact_windows_def fuzzy_windows_def window_starts_def)
qed

lemma guess_cells:
  assumes "shape_ok s" "\<not> int (length g) < MIN_LEN"
  shows "\<exists>st'. guess g s =
             Some ((int (sum_list (map (exact_windows g) (code s))),
                    if fuzzyAllowed s then int (sum_list (map (fuzzy_windows g) (code s))) else - 1),
                   s\<lparr>state := st'\<rparr>)
           \<and> same_shape (state s) st'
           \<and> (\<forall>i p. st' ! i ! p =
                 (if i < length (code s)
                  then guess_cell g (fuzzyAllowed s) (code s ! i) (window_starts g (code s ! i))
                         (state s ! i ! p) p
                  else state s ! i ! p))"
proof -
  let ?n = "length (code s)"
  let ?r0 = "(0 :: int, if \<not> fuzzyAllowed s then - 1 else 0 :: int)"
  let ?body = "\<lambda>i acc. do { line \<leftarrow> get (code s) i; guess_line g (fuzzyAllowed s) line i acc }"
  let ?E = "\<lambda>k. int (sum_list (map (exact_windows g) (take k (code s))))"
  let ?F = "\<lambda>k. int (sum_list (map (fuzzy_windows g) (take k (code s))))"
  let ?cell = "\<lambda>i p. guess_cell g (fuzzyAllowed s) (code s ! i) (window_starts g (code s ! i))
                         (state s ! i ! p) p"
  let ?C = "\<lambda>k (a :: int list list). \<forall>i p. a ! i ! p = (if i < k then ?cell i p else state s ! i ! p)"
  let ?I = "\<lambda>(k::nat) (a :: (int \<times> int) \<times> int list list).
              fst a = (?E k, if fuzzyAllowed s then ?F k else - 1)
              \<and> same_shape (state s) (snd a) \<and> ?C k (snd a)"
  have "\<exists>a'. for_loop 0 ?n ?body (?r0, state s) = Some a' \<and> ?I ?n a'"
  proof (rule for_loop_rule [where I = ?I])
    show "?I 0 (?r0, state s)" by (simp add: same_shape_refl)
    show "0 \<le> ?n" by simp
  next
    fix k and a :: "(int \<times> int) \<times> int list list"
    assume k: "k < ?n" and I: "?I k a"
    obtain r1 st1 where a: "a = (r1, st1)" by (cases a)
    have r1: "r1 = (?E k, if fuzzyAllowed s then ?F k else - 1)" using I a by simp
    have sh: "same_shape (state s) st1" using I a by simp
    have C: "?C k st1" using I a by simp
    have ks: "k < length (state s)" using shape_ok_length[OF assms(1)] k by simp
    have 1: "k < length st1" using same_shape_length[OF sh] ks by simp
    have 2: "length (st1 ! k) = length (code s ! k)"
      using same_shape_row[OF sh ks] shape_ok_row[OF assms(1) k] by simp
    from guess_line_cells[OF 1 2, of g "fuzzyAllowed s" "?E k"
        "if fuzzyAllowed s then ?F k else - 1"]
    obtain st' where
      w: "guess_line g (fuzzyAllowed s) (code s ! k) k
            ((?E k, if fuzzyAllowed s then ?F k else - 1), st1) =
            Some ((?E k + int (exact_windows g (code s ! k)),
                   (if fuzzyAllowed s then ?F k else - 1)
                     + (if fuzzyAllowed s then int (fuzzy_windows g (code s ! k)) else 0)), st')"
        "same_shape st1 st'"
        "\<forall>i' p. st' ! i' ! p =
                 (if i' = k
                  then guess_cell g (fuzzyAllowed s) (code s ! k) (window_starts g (code s ! k))
                         (st1 ! k ! p) p
                  else st1 ! i' ! p)"
      by blast
    have tk: "take (Suc k) (code s) = take k (code s) @ [code s ! k]"
      using k by (simp add: take_Suc_conv_app_nth)
    have sh': "same_shape (state s) st'" using sh w(2) by (simp add: same_shape_def)
    have old: "st1 ! k ! p = state s ! k ! p" for p using C by simp
    have C': "?C (Suc k) st'"
      using w(3) C old by (auto simp: less_Suc_eq)
    have "?I (Suc k) ((?E k + int (exact_windows g (code s ! k)),
                   (if fuzzyAllowed s then ?F k else - 1)
                     + (if fuzzyAllowed s then int (fuzzy_windows g (code s ! k)) else 0)), st')"
      using sh' C' by (simp add: tk)
    moreover have "?body k a = Some ((?E k + int (exact_windows g (code s ! k)),
                   (if fuzzyAllowed s then ?F k else - 1)
                     + (if fuzzyAllowed s then int (fuzzy_windows g (code s ! k)) else 0)), st')"
      using w(1) a r1 k by (simp add: get_Some)
    ultimately show "\<exists>a'. ?body k a = Some a' \<and> ?I (Suc k) a'" by blast
  qed
  then obtain r st' where
    l: "for_loop 0 ?n ?body (?r0, state s) = Some (r, st')"
      "r = (?E ?n, if fuzzyAllowed s then ?F ?n else - 1)" "same_shape (state s) st'"
      "?C ?n st'"
    by auto
  have g: "guess g s = Some (r, s\<lparr>state := st'\<rparr>)"
    using assms(2) l(1) by (simp add: guess_def Let_def)
  have r: "r = (int (sum_list (map (exact_windows g) (code s))),
                if fuzzyAllowed s then int (sum_list (map (fuzzy_windows g) (code s))) else - 1)"
    using l(2) by (simp cong: if_cong)
  show ?thesis using g r l(3) l(4) by (intro exI[of _ st']) simp
qed

lemma loadFromFile_shape_ok:
  assumes "shape_ok s" "loadFromFile fs s = Inr s'"
  shows "shape_ok s'"
proof -
  let ?step = "\<lambda>line s. let line = expand_tabs line @ replicate (nat (MIN_LEN - 1)) CHR '' ''
                 in s\<lparr>code := code s @ [line], state := state s @ [replicate (length line) 0]\<rparr>"
  have fold: "shape_ok s \<Longrightarrow> shape_ok (fold ?step lines s)" for lines s
    by (induction lines arbitrary: s) (simp_all add: shape_ok_def Let_def)
  from assms(2) obtain lines where "s' = fold ?step lines s"
    by (auto simp: loadFromFile_def split: option.splits)
  then show ?thesis using fold[OF assms(1)] by simp
qed

lemma CodeSnippet_new_shape_ok: "CodeSnippet_new fs p fuzzy = Inr s \<Longrightarrow> shape_ok s"
  unfolding CodeSnippet_new_def
  by (erule loadFromFile_shape_ok[rotated]) (simp add: shape_ok_def)

subsection \<open>Claims on the matching engine\<close>

lemma window_start_mem:
  "j + length g \<le> length line \<Longrightarrow> j \<in> set (window_starts g line)"
  by (simp add: window_starts_def)

text \<open>
  C1. Exact match. For a guess of at least three characters, a snippet whose state grid
  has the shape of its buffer, and any window of a line whose text is the guess: \<open>guess\<close>
  returns the snippet with a new state grid of the same shape in which every position of
  that window is \<open>EXACT_MATCH\<close>, whatever its state was, and in which every position of
  every line is as \<open>guess_cell\<close> says: exact where a window that equals the guess covers
  it, and fuzzy only where no such window does. The exact count returned is the number of
  windows equal to the guess, among them this one; the fuzzy count is the number of fuzzy
  hits (or the sentinel \<open>-1\<close> when fuzzy matching is off), and this window is no fuzzy
  hit: no window is counted in both. In the loop, on any grid \<open>st\<close> of that shape
  (whatever marks earlier windows left in it), the body at this window adds one to the
  exact count, leaves the fuzzy count as it is, and sets exactly the positions of the
  window to \<open>EXACT_MATCH\<close>.
\<close>

theorem exact_match_precedence:
  assumes "3 \<le> length g" and "shape_ok s" and "same_shape (state s) st"
    and "i < length (code s)" and "j + length g \<le> length (code s ! i)"
    and "window (code s ! i) j (length g) = g"
  shows "(\<exists>st'. guess g s =
            Some ((int (sum_list (map (exact_windows g) (code s))),
                   if fuzzyAllowed s then int (sum_list (map (fuzzy_windows g) (code s))) else - 1),
                  s\<lparr>state := st'\<rparr>)
            \<and> same_shape (state s) st'
            \<and> (\<forall>p. j \<le> p \<and> p < j + length g \<longrightarrow> st' ! i ! p = EXACT_MATCH)
            \<and> (\<forall>i' p. i' < length (code s) \<longrightarrow>
                  st' ! i' ! p =
                    guess_cell g (fuzzyAllowed s) (code s ! i') (window_starts g (code s ! i'))
                      (state s ! i' ! p) p))
       \<and> j \<in> set (window_starts g (code s ! i))
       \<and> 1 \<le> exact_windows g (code s ! i)
       \<and> \<not> fuzzy_hit g (window (code s ! i) j (length g))
       \<and> (\<exists>st'. guess_window g fuzzy (code s ! i) i j ((e, f), st) = Some ((e + 1, f), st')
            \<and> same_shape st st'
            \<and> (\<forall>i' p. st' ! i' ! p =
                  (if i' = i \<and> j \<le> p \<and> p < j + length g then EXACT_MATCH else st ! i' ! p)))"
proof -
  let ?line = "code s ! i"
  have i: "i < length st"
    using same_shape_length[OF assms(3)] shape_ok_length[OF assms(2)] assms(4) by simp
  have "i < length (state s)" using shape_ok_length[OF assms(2)] assms(4) by simp
  then have row: "length (st ! i) = length ?line"
    using same_shape_row[OF assms(3)] shape_ok_row[OF assms(2) assms(4)] by simp
  have long: "\<not> int (length g) < MIN_LEN" using assms(1) by (simp add: MIN_LEN_def)
  have mem: "j \<in> set (window_starts g ?line)" by (rule window_start_mem[OF assms(5)])
  have hit: "exact_hit g (window ?line j (length g))" using assms(6) by (simp add: exact_hit_def)
  have "j \<in> set (filter (\<lambda>j. exact_hit g (window ?line j (length g))) (window_starts g ?line))"
    using mem hit by simp
  then have "0 < length (filter (\<lambda>j. exact_hit g (window ?line j (length g)))
                           (window_starts g ?line))"
    by (rule length_pos_if_in_set)
  then have cnt: "1 \<le> exact_windows g ?line"
    unfolding exact_windows_def by linarith
  have nf: "\<not> fuzzy_hit g (window ?line j (length g))" by (rule exact_not_fuzzy[OF hit])
  from guess_cells[OF assms(2) long] obtain st' where
    g: "guess g s =
            Some ((int (sum_list (map (exact_windows g) (code s))),
                   if fuzzyAllowed s then int (sum_list (map (fuzzy_windows g) (code s))) else - 1),
                  s\<lparr>state := st'\<rparr>)"
      "same_shape (state s) st'"
      "\<forall>i p. st' ! i ! p =
                 (if i < length (code s)
                  then guess_cell g (fuzzyAllowed s) (code s ! i) (window_starts g (code s ! i))
                         (state s ! i ! p) p
                  else state s ! i ! p)"
    by blast
  have win: "st' ! i ! p = EXACT_MATCH" if "j \<le> p \<and> p < j + length g" for p
  proof -
    have "covered_exact g ?line (window_starts g ?line) p"
      unfolding covered_exact_def covers_def using mem hit that by blast
    then show ?thesis using g(3) assms(4) by (simp add: guess_cell_def)
  qed
  have cells: "st' ! i' ! p =
                 guess_cell g (fuzzyAllowed s) (code s ! i') (window_starts g (code s ! i'))
                   (state s ! i' ! p) p" if "i' < length (code s)" for i' p
    using g(3) that by simp
  have 1: "\<exists>st'. guess g s =
            Some ((int (sum_list (map (exact_windows g) (code s))),
                   if fuzzyAllowed s then int (sum_list (map (fuzzy_windows g) (code s))) else - 1),
                  s\<lparr>state := st'\<rparr>)
            \<and> same_shape (state s) st'
            \<and> (\<forall>p. j \<le> p \<and> p < j + length g \<longrightarrow> st' ! i ! p = EXACT_MATCH)
            \<and> (\<forall>i' p. i' < length (code s) \<longrightarrow>
                  st' ! i' ! p =
                    guess_cell g (fuzzyAllowed s) (code s ! i') (window_starts g (code s ! i'))
                      (state s ! i' ! p) p)"
    using g(1,2) win cells by (intro exI[of _ st']) blast
  have 2: "\<exists>st'. guess_window g fuzzy (code s ! i) i j ((e, f), st) = Some ((e + 1, f), st')
            \<and> same_shape st st'
            \<and> (\<forall>i' p. st' ! i' ! p =
                  (if i' = i \<and> j \<le> p \<and> p < j + length g then EXACT_MATCH else st ! i' ! p))"
    by (rule guess_window_exact[OF i row assms(5) assms(6)])
  show ?thesis by (intro conjI 1 mem cnt nf 2)
qed

theorem exact_match_precedence_witness:
  "3 \<le> length ''int'' \<and> shape_ok example_marked \<and> same_shape (state example_marked) example_grid
   \<and> 0 < length (code example_marked) \<and> 0 + length ''int'' \<le> length (code example_marked ! 0)
   \<and> window (code example_marked ! 0) 0 (length ''int'') = ''int''
   \<and> state example_marked = [[1, 1, 0, 0, 1, 1, 1, 0, 0, 0, 0], [1, 1, 1, 0]]
   \<and> guess ''int'' example_marked
       = Some ((1, 2), example_marked\<lparr>state := [[2, 2, 2, 0, 1, 1, 1, 0, 0, 0, 0], [1, 1, 1, 0]]\<rparr>)
   \<and> (\<exists>st'. guess ''int'' example_marked
               = Some ((int (sum_list (map (exact_windows ''int'') (code example_marked))),
                        int (sum_list (map (fuzzy_windows ''int'') (code example_marked)))),
                       example_marked\<lparr>state := st'\<rparr>)
            \<and> st' ! 0 ! 0 = EXACT_MATCH \<and> st' ! 0 ! 1 = EXACT_MATCH \<and> st' ! 0 ! 2 = EXACT_MATCH)
   \<and> guess_window ''int'' True (code example_marked ! 0) 0 0 ((0, 0), example_grid)
       = Some ((1, 0), [[2, 2, 2, 0, 1, 1, 1, 0, 0, 0, 0], [1, 1, 1, 0]])"
proof -
  have h1: "3 \<le> length ''int''" by simp
  have h2: "shape_ok example_marked"
    by (simp add: shape_ok_def example_marked_def example_snippet_def example_grid_def)
  have h3: "same_shape (state example_marked) example_grid"
    by (simp add: same_shape_def example_marked_def)
  have h4: "0 < length (code example_marked)"
    by (simp add: example_marked_def example_snippet_def)
  have h5: "0 + length ''int'' \<le> length (code example_marked ! 0)"
    by (simp add: example_marked_def example_snippet_def)
  have h6: "window (code example_marked ! 0) 0 (length ''int'') = ''int''"
    by (simp add: example_marked_def example_snippet_def window_def)
  have fz: "fuzzyAllowed example_marked" by (simp add: example_marked_def example_snippet_def)
  have c0: "state example_marked = [[1, 1, 0, 0, 1, 1, 1, 0, 0, 0, 0], [1, 1, 1, 0]]"
    by (simp add: example_marked_def example_grid_def)
  have c1: "guess_window ''int'' True (code example_marked ! 0) 0 0 ((0, 0), example_grid)
       = Some ((1, 0), [[2, 2, 2, 0, 1, 1, 1, 0, 0, 0, 0], [1, 1, 1, 0]])"
    by code_simp
  have c2: "guess ''int'' example_marked
       = Some ((1, 2), example_marked\<lparr>state := [[2, 2, 2, 0, 1, 1, 1, 0, 0, 0, 0], [1, 1, 1, 0]]\<rparr>)"
    by code_simp
  from exact_match_precedence[OF h1 h2 h3 h4 h5 h6, of True 0 0] obtain st' where
    t: "guess ''int'' example_marked =
            Some ((int (sum_list (map (exact_windows ''int'') (code example_marked))),
                   if fuzzyAllowed example_marked
                   then int (sum_list (map (fuzzy_windows ''int'') (code example_marked))) else - 1),
                  example_marked\<lparr>state := st'\<rparr>)"
      "\<forall>p. 0 \<le> p \<and> p < 0 + length ''int'' \<longrightarrow> st' ! 0 ! p = EXACT_MATCH"
    by blast
  have cells: "st' ! 0 ! 0 = EXACT_MATCH" "st' ! 0 ! 1 = EXACT_MATCH" "st' ! 0 ! 2 = EXACT_MATCH"
    using t(2) by simp_all
  have "\<exists>st'. guess ''int'' example_marked
               = Some ((int (sum_list (map (exact_windows ''int'') (code example_marked))),
                        int (sum_list (map (fuzzy_windows ''int'') (code example_marked)))),
                       example_marked\<lparr>state := st'\<rparr>)
            \<and> st' ! 0 ! 0 = EXACT_MATCH \<and> st' ! 0 ! 1 = EXACT_MATCH \<and> st' ! 0 ! 2 = EXACT_MATCH"
    using t(1) cells fz by (intro exI[of _ st']) simp
  then show ?thesis using h1 h2 h3 h4 h5 h6 c0 c1 c2 by blast
qed

text \<open>
  C2. Fuzzy match. For a guess of at least three characters, a snippet with fuzzy matching
  on whose state grid has the shape of its buffer, and a window of a line whose text is
  not the guess. \<open>guess\<close> returns as its fuzzy count the number of windows, over all lines,
  that are not the guess and have \<open>failCount \<le> 1\<close> and \<open>significant \<ge> 2\<close>, where
  \<open>failCount\<close> is the number of offsets at which window and guess differ and
  \<open>significant\<close> the number of non-blank characters of the guess: this window is counted
  exactly if it satisfies the two bounds. \<open>guess\<close> returns the snippet with a new state
  grid of the same shape in which every position is as \<open>guess_cell\<close> says. If this window
  satisfies the bounds, each of its positions is exact where a window that equals the
  guess covers it, else \<open>FUZZY_MATCH\<close> if it was \<open>UNGUESSED\<close>, else as it was; and
  nowhere does a position become \<open>FUZZY_MATCH\<close> that was not \<open>UNGUESSED\<close>. In the loop,
  on any grid \<open>st\<close> of that shape, the counting loop yields \<open>failCount\<close> and
  \<open>significant\<close>, and the body at this window adds one to the fuzzy count exactly under
  the two bounds; it then sets to \<open>FUZZY_MATCH\<close> the positions of the window whose state
  is \<open>UNGUESSED\<close> and no other; otherwise counts and grid stay as they are.
\<close>

theorem fuzzy_match_rule:
  assumes "3 \<le> length g" and "shape_ok s" and "same_shape (state s) st"
    and "i < length (code s)" and "j + length g \<le> length (code s ! i)"
    and "window (code s ! i) j (length g) \<noteq> g" and "fuzzyAllowed s"
  shows "(\<exists>st'. guess g s =
            Some ((int (sum_list (map (exact_windows g) (code s))),
                   int (sum_list (map (fuzzy_windows g) (code s)))),
                  s\<lparr>state := st'\<rparr>)
            \<and> same_shape (state s) st'
            \<and> (\<forall>i' p. i' < length (code s) \<longrightarrow>
                  st' ! i' ! p =
                    guess_cell g True (code s ! i') (window_starts g (code s ! i'))
                      (state s ! i' ! p) p)
            \<and> (failCount (window (code s ! i) j (length g)) g \<le> 1 \<and> 2 \<le> significant g \<longrightarrow>
                 (\<forall>p. j \<le> p \<and> p < j + length g \<longrightarrow>
                    st' ! i ! p =
                      (if covered_exact g (code s ! i) (window_starts g (code s ! i)) p
                       then EXACT_MATCH
                       else if state s ! i ! p = UNGUESSED then FUZZY_MATCH
                       else state s ! i ! p)))
            \<and> (\<forall>i' p. i' < length (code s) \<and> st' ! i' ! p = FUZZY_MATCH
                    \<and> state s ! i' ! p \<noteq> FUZZY_MATCH
                  \<longrightarrow> state s ! i' ! p = UNGUESSED
                      \<and> covered_fuzzy g (code s ! i') (window_starts g (code s ! i')) p))
       \<and> j \<in> set (window_starts g (code s ! i))
       \<and> fuzzy_hit g (window (code s ! i) j (length g))
           = (failCount (window (code s ! i) j (length g)) g \<le> 1 \<and> 2 \<le> significant g)
       \<and> (\<forall>line. fuzzy_windows g line =
             length (filter (\<lambda>j'. window line j' (length g) \<noteq> g
                                \<and> failCount (window line j' (length g)) g \<le> 1
                                \<and> 2 \<le> significant g)
                       (window_starts g line)))
       \<and> guess_fuzzy_counts g (code s ! i) j (length g) =
           Some (int (failCount (window (code s ! i) j (length g)) g), int (significant g))
       \<and> (if failCount (window (code s ! i) j (length g)) g \<le> 1 \<and> 2 \<le> significant g
          then (\<exists>st'. guess_window g (fuzzyAllowed s) (code s ! i) i j ((e, f), st)
                        = Some ((e, f + 1), st')
                  \<and> same_shape st st'
                  \<and> (\<forall>i' p. st' ! i' ! p =
                        (if i' = i \<and> j \<le> p \<and> p < j + length g \<and> st ! i' ! p = UNGUESSED
                         then FUZZY_MATCH else st ! i' ! p)))
          else guess_window g (fuzzyAllowed s) (code s ! i) i j ((e, f), st) = Some ((e, f), st))"
proof -
  let ?line = "code s ! i"
  let ?w = "window ?line j (length g)"
  have i: "i < length st"
    using same_shape_length[OF assms(3)] shape_ok_length[OF assms(2)] assms(4) by simp
  have "i < length (state s)" using shape_ok_length[OF assms(2)] assms(4) by simp
  then have row: "length (st ! i) = length ?line"
    using same_shape_row[OF assms(3)] shape_ok_row[OF assms(2) assms(4)] by simp
  have long: "\<not> int (length g) < MIN_LEN" using assms(1) by (simp add: MIN_LEN_def)
  have mem: "j \<in> set (window_starts g ?line)" by (rule window_start_mem[OF assms(5)])
  have fh: "fuzzy_hit g ?w = (failCount ?w g \<le> 1 \<and> 2 \<le> significant g)"
    using assms(6) by (simp add: fuzzy_hit_def)
  have fw: "\<forall>line. fuzzy_windows g line =
             length (filter (\<lambda>j'. window line j' (length g) \<noteq> g
                                \<and> failCount (window line j' (length g)) g \<le> 1
                                \<and> 2 \<le> significant g)
                       (window_starts g line))"
    by (simp add: fuzzy_windows_def fuzzy_hit_def)
  from guess_cells[OF assms(2) long] assms(7) obtain st' where
    g: "guess g s =
            Some ((int (sum_list (map (exact_windows g) (code s))),
                   int (sum_list (map (fuzzy_windows g) (code s)))),
                  s\<lparr>state := st'\<rparr>)"
      "same_shape (state s) st'"
      "\<forall>i p. st' ! i ! p =
                 (if i < length (code s)
                  then guess_cell g True (code s ! i) (window_starts g (code s ! i))
                         (state s ! i ! p) p
                  else state s ! i ! p)"
    by auto
  have cells: "st' ! i' ! p =
                 guess_cell g True (code s ! i') (window_starts g (code s ! i'))
                   (state s ! i' ! p) p" if "i' < length (code s)" for i' p
    using g(3) that by simp
  have win: "st' ! i ! p =
                      (if covered_exact g ?line (window_starts g ?line) p
                       then EXACT_MATCH
                       else if state s ! i ! p = UNGUESSED then FUZZY_MATCH
                       else state s ! i ! p)"
    if b: "failCount ?w g \<le> 1 \<and> 2 \<le> significant g" and p: "j \<le> p \<and> p < j + length g" for p
  proof -
    have "covered_fuzzy g ?line (window_starts g ?line) p"
      unfolding covered_fuzzy_def covers_def using mem fh b p by blast
    then show ?thesis using cells[OF assms(4), of p] by (simp add: guess_cell_def)
  qed
  have only: "state s ! i' ! p = UNGUESSED
              \<and> covered_fuzzy g (code s ! i') (window_starts g (code s ! i')) p"
    if "i' < length (code s) \<and> st' ! i' ! p = FUZZY_MATCH \<and> state s ! i' ! p \<noteq> FUZZY_MATCH"
    for i' p
    using that cells[of i' p]
    by (auto simp: guess_cell_def EXACT_MATCH_def FUZZY_MATCH_def split: if_splits)
  have 1: "\<exists>st'. guess g s =
            Some ((int (sum_list (map (exact_windows g) (code s))),
                   int (sum_list (map (fuzzy_windows g) (code s)))),
                  s\<lparr>state := st'\<rparr>)
            \<and> same_shape (state s) st'
            \<and> (\<forall>i' p. i' < length (code s) \<longrightarrow>
                  st' ! i' ! p =
                    guess_cell g True (code s ! i') (window_starts g (code s ! i'))
                      (state s ! i' ! p) p)
            \<and> (failCount ?w g \<le> 1 \<and> 2 \<le> significant g \<longrightarrow>
                 (\<forall>p. j \<le> p \<and> p < j + length g \<longrightarrow>
                    st' ! i ! p =
                      (if covered_exact g ?line (window_starts g ?line) p
                       then EXACT_MATCH
                       else if state s ! i ! p = UNGUESSED then FUZZY_MATCH
                       else state s ! i ! p)))
            \<and> (\<forall>i' p. i' < length (code s) \<and> st' ! i' ! p = FUZZY_MATCH
                    \<and> state s ! i' ! p \<noteq> FUZZY_MATCH
                  \<longrightarrow> state s ! i' ! p = UNGUESSED
                      \<and> covered_fuzzy g (code s ! i') (window_starts g (code s ! i')) p)"
    using g(1,2) cells win only by (intro exI[of _ st']) blast
  have 2: "guess_fuzzy_counts g ?line j (length g) =
           Some (int (failCount ?w g), int (significant g))"
    by (rule guess_fuzzy_counts_Some[OF assms(5)])
  have 3: "if failCount ?w g \<le> 1 \<and> 2 \<le> significant g
          then (\<exists>st'. guess_window g (fuzzyAllowed s) ?line i j ((e, f), st)
                        = Some ((e, f + 1), st')
                  \<and> same_shape st st'
                  \<and> (\<forall>i' p. st' ! i' ! p =
                        (if i' = i \<and> j \<le> p \<and> p < j + length g \<and> st ! i' ! p = UNGUESSED
                         then FUZZY_MATCH else st ! i' ! p)))
          else guess_window g (fuzzyAllowed s) ?line i j ((e, f), st) = Some ((e, f), st)"
  proof (cases "failCount ?w g \<le> 1 \<and> 2 \<le> significant g")
    case True
    then show ?thesis
      using guess_window_fuzzy_hit[OF i row assms(5) assms(6) assms(7), of e f] by simp
  next
    case False
    then show ?thesis
      using guess_window_fuzzy_miss[OF assms(5) assms(6) assms(7), of i "(e, f)" st] by simp
  qed
  show ?thesis by (intro conjI 1 mem fh fw 2 3)
qed

theorem fuzzy_match_rule_witness:
  "3 \<le> length ''int'' \<and> shape_ok example_snippet \<and> same_shape (state example_snippet) example_grid
   \<and> 0 < length (code example_snippet) \<and> 4 + length ''int'' \<le> length (code example_snippet ! 0)
   \<and> window (code example_snippet ! 0) 4 (length ''int'') = ''ine''
   \<and> ''ine'' \<noteq> ''int'' \<and> fuzzyAllowed example_snippet
   \<and> failCount ''ine'' ''int'' = 1 \<and> significant ''int'' = 3
   \<and> guess ''int'' example_snippet
       = Some ((1, 2), example_snippet\<lparr>state := [[2, 2, 2, 0, 1, 1, 1, 0, 0, 0, 0], [1, 1, 1, 0]]\<rparr>)
   \<and> (\<exists>st'. guess ''int'' example_snippet
               = Some ((int (sum_list (map (exact_windows ''int'') (code example_snippet))),
                        int (sum_list (map (fuzzy_windows ''int'') (code example_snippet)))),
                       example_snippet\<lparr>state := st'\<rparr>)
            \<and> st' ! 0 ! 4 = FUZZY_MATCH \<and> st' ! 0 ! 5 = FUZZY_MATCH \<and> st' ! 0 ! 6 = FUZZY_MATCH)
   \<and> fuzzy_windows ''int'' (code example_snippet ! 0) = 1
   \<and> guess_fuzzy_counts ''int'' (code example_snippet ! 0) 4 (length ''int'') = Some (1, 3)
   \<and> guess_window ''int'' True (code example_snippet ! 0) 0 4
         ((0, 0), [[2, 2, 2, 0, 0, 1, 0, 0, 0, 0, 0], [0, 0, 0, 0]])
       = Some ((0, 1), [[2, 2, 2, 0, 1, 1, 1, 0, 0, 0, 0], [0, 0, 0, 0]])"
proof -
  have h1: "3 \<le> length ''int''" by simp
  have h2: "shape_ok example_snippet" by (simp add: shape_ok_def example_snippet_def)
  have h3: "same_shape (state example_snippet) example_grid"
    by (simp add: same_shape_def example_snippet_def example_grid_def)
  have h4: "0 < length (code example_snippet)" by (simp add: example_snippet_def)
  have h5: "4 + length ''int'' \<le> length (code example_snippet ! 0)"
    by (simp add: example_snippet_def)
  have w: "window (code example_snippet ! 0) 4 (length ''int'') = ''ine''"
    by (simp add: example_snippet_def window_def)
  have h6: "window (code example_snippet ! 0) 4 (length ''int'') \<noteq> ''int''"
    by (simp add: example_snippet_def window_def)
  have h7: "fuzzyAllowed example_snippet" by (simp add: example_snippet_def)
  have fc: "failCount ''ine'' ''int'' = 1" "significant ''int'' = 3"
    by (simp_all add: failCount_def significant_def)
  have c0: "guess ''int'' example_snippet
       = Some ((1, 2), example_snippet\<lparr>state := [[2, 2, 2, 0, 1, 1, 1, 0, 0, 0, 0], [1, 1, 1, 0]]\<rparr>)"
    by code_simp
  have c1: "guess_window ''int'' True (code example_snippet ! 0) 0 4
         ((0, 0), [[2, 2, 2, 0, 0, 1, 0, 0, 0, 0, 0], [0, 0, 0, 0]])
       = Some ((0, 1), [[2, 2, 2, 0, 1, 1, 1, 0, 0, 0, 0], [0, 0, 0, 0]])"
    by code_simp
  have c2: "fuzzy_windows ''int'' (code example_snippet ! 0) = 1" by code_simp
  have ne: "\<not> covered_exact ''int'' (code example_snippet ! 0)
              (window_starts ''int'' (code example_snippet ! 0)) p" if "4 \<le> p" for p
  proof -
    have e: "exact_hit ''int'' (window (code example_snippet ! 0) j (length ''int'')) \<longleftrightarrow> j = 0"
      if "j \<in> set (window_starts ''int'' (code example_snippet ! 0))" for j
    proof -
      have "j \<in> {0, 1, 2, 3, 4, 5, 6, 7, 8}"
        using that by (auto simp: window_starts_def example_snippet_def)
      then show ?thesis
        by (auto simp: exact_hit_def window_def example_snippet_def)
    qed
    show ?thesis
      unfolding covered_exact_def covers_def using e that by auto
  qed
  have old: "state example_snippet ! 0 ! 4 = UNGUESSED" "state example_snippet ! 0 ! 5 = UNGUESSED"
    "state example_snippet ! 0 ! 6 = UNGUESSED"
    by (simp_all add: example_snippet_def UNGUESSED_def)
  note T = fuzzy_match_rule[OF h1 h2 h3 h4 h5 h6 h7, of 0 0, unfolded w]
  from T obtain st' where
    t: "guess ''int'' example_snippet =
            Some ((int (sum_list (map (exact_windows ''int'') (code example_snippet))),
                   int (sum_list (map (fuzzy_windows ''int'') (code example_snippet)))),
                  example_snippet\<lparr>state := st'\<rparr>)"
      "failCount ''ine'' ''int'' \<le> 1 \<and> 2 \<le> significant ''int'' \<longrightarrow>
                 (\<forall>p. 4 \<le> p \<and> p < 4 + length ''int'' \<longrightarrow>
                    st' ! 0 ! p =
                      (if covered_exact ''int'' (code example_snippet ! 0)
                            (window_starts ''int'' (code example_snippet ! 0)) p
                       then EXACT_MATCH
                       else if state example_snippet ! 0 ! p = UNGUESSED then FUZZY_MATCH
                       else state example_snippet ! 0 ! p))"
    by blast
  have cells: "st' ! 0 ! 4 = FUZZY_MATCH" "st' ! 0 ! 5 = FUZZY_MATCH" "st' ! 0 ! 6 = FUZZY_MATCH"
    using t(2) fc ne[of 4] ne[of 5] ne[of 6] old by simp_all
  have a: "\<exists>st'. guess ''int'' example_snippet
               = Some ((int (sum_list (map (exact_windows ''int'') (code example_snippet))),
                        int (sum_list (map (fuzzy_windows ''int'') (code example_snippet)))),
                       example_snippet\<lparr>state := st'\<rparr>)
            \<and> st' ! 0 ! 4 = FUZZY_MATCH \<and> st' ! 0 ! 5 = FUZZY_MATCH \<and> st' ! 0 ! 6 = FUZZY_MATCH"
    using t(1) cells by (intro exI[of _ st']) simp
  have b: "guess_fuzzy_counts ''int'' (code example_snippet ! 0) 4 (length ''int'') = Some (1, 3)"
    using T by (simp add: fc)
  show ?thesis
    using h1 h2 h3 h4 h5 w h7 fc c0 c1 c2 a b by simp
qed

text \<open>
  C10. Bounds of the window scan. On a snippet whose state grid has the shape of its
  buffer, \<open>guess\<close> returns a result: none of its reads of a character, reads or writes of
  a state, or \<^verbatim>\<open>substr\<close> calls leaves its container, and the grid keeps the shape of the
  unchanged buffer. For every line, each window start \<open>j\<close> that the loop visits has
  \<open>j + length g \<le> length line\<close>, and the loop body at that start succeeds on every grid of
  the right shape. A line shorter than the guess is skipped: counts and grid are returned
  as they were.
\<close>

theorem window_scan_in_bounds:
  assumes "shape_ok s"
  shows "(\<exists>r s'. guess g s = Some (r, s') \<and> shape_ok s' \<and> code s' = code s)
       \<and> (\<forall>i j st r. i < length (code s) \<and> same_shape (state s) st
              \<and> j < nat (int (length (code s ! i)) - int (length g) + 1)
            \<longrightarrow> j + length g \<le> length (code s ! i)
                \<and> (\<exists>acc'. guess_window g (fuzzyAllowed s) (code s ! i) i j (r, st) = Some acc'))
       \<and> (\<forall>i acc. i < length (code s) \<and> length (code s ! i) < length g
            \<longrightarrow> guess_line g (fuzzyAllowed s) (code s ! i) i acc = Some acc)"
proof -
  from guess_mono[OF assms, of g] obtain r st' where
    g: "guess g s = Some (r, s\<lparr>state := st'\<rparr>)" "mono_state (state s) st'"
    by blast
  have "shape_ok (s\<lparr>state := st'\<rparr>)"
    by (rule shape_ok_update[OF assms mono_state_shape[OF g(2)]])
  then have 1: "\<exists>r s'. guess g s = Some (r, s') \<and> shape_ok s' \<and> code s' = code s"
    using g(1) by (intro exI[of _ r] exI[of _ "s\<lparr>state := st'\<rparr>"]) simp
  have 2: "j + length g \<le> length (code s ! i)
           \<and> (\<exists>acc'. guess_window g (fuzzyAllowed s) (code s ! i) i j (r, st) = Some acc')"
    if h: "i < length (code s)" "same_shape (state s) st"
      "j < nat (int (length (code s ! i)) - int (length g) + 1)"
    for i j st and r :: "int \<times> int"
  proof -
    have b: "j + length g \<le> length (code s ! i)" using h(3) by linarith
    have i: "i < length st"
      using same_shape_length[OF h(2)] shape_ok_length[OF assms] h(1) by simp
    have "i < length (state s)" using shape_ok_length[OF assms] h(1) by simp
    then have row: "length (st ! i) = length (code s ! i)"
      using same_shape_row[OF h(2)] shape_ok_row[OF assms h(1)] by simp
    obtain e f where r: "r = (e, f)" by (cases r)
    show ?thesis
      using guess_window_step[OF i row b, of "fuzzyAllowed s" e f] b r by blast
  qed
  have 3: "guess_line g (fuzzyAllowed s) (code s ! i) i acc = Some acc"
    if "length (code s ! i) < length g" for i acc
    by (rule guess_line_short[OF that])
  show ?thesis using 1 2 3 by blast
qed

theorem window_scan_in_bounds_witness:
  "shape_ok example_snippet
   \<and> (\<exists>r s'. guess ''int'' example_snippet = Some (r, s') \<and> shape_ok s'
         \<and> code s' = code example_snippet)
   \<and> guess_line ''int ine x  in'' True (code example_snippet ! 0) 0 ((0, 0), example_grid)
       = Some ((0, 0), example_grid)
   \<and> guess ''int'' example_snippet =
       Some ((1, 2), example_snippet\<lparr>state := [[2, 2, 2, 0, 1, 1, 1, 0, 0, 0, 0], [1, 1, 1, 0]]\<rparr>)"
proof -
  have h: "shape_ok example_snippet" by (simp add: shape_ok_def example_snippet_def)
  have c1: "guess_line ''int ine x  in'' True (code example_snippet ! 0) 0 ((0, 0), example_grid)
       = Some ((0, 0), example_grid)"
    by code_simp
  have c2: "guess ''int'' example_snippet =
       Some ((1, 2), example_snippet\<lparr>state := [[2, 2, 2, 0, 1, 1, 1, 0, 0, 0, 0], [1, 1, 1, 0]]\<rparr>)"
    by code_simp
  show ?thesis
    using h c1 c2 window_scan_in_bounds[OF h, of "''int''"] by blast
qed

subsection \<open>check and reveal\<close>

lemma check_line_Some:
  assumes "i < length st" "length (st ! i) = length line"
  shows "check_line line st i j ok =
           Some (ok \<and> (\<forall>p. j \<le> p \<and> p < length line \<and> line ! p \<noteq> CHR '' ''
                          \<longrightarrow> st ! i ! p = EXACT_MATCH))"
  using assms
proof (induction line st i j ok rule: check_line.induct)
  case (1 line st i j ok)
  let ?Q = "\<lambda>j. \<forall>p. j \<le> p \<and> p < length line \<and> line ! p \<noteq> CHR '' '' \<longrightarrow> st ! i ! p = EXACT_MATCH"
  show ?case
  proof (cases "j < length line")
    case False
    then show ?thesis by (subst check_line.simps) auto
  next
    case True
    have gl: "get line j = Some (line ! j)" using True by (simp add: get_Some)
    have gc: "get_cell st i j = Some (st ! i ! j)"
      using True "1.prems" by (simp add: get_cell_Some)
    have le: "j \<le> p \<longleftrightarrow> p = j \<or> Suc j \<le> p" for p by auto
    have split: "?Q j \<longleftrightarrow> (line ! j \<noteq> CHR '' '' \<longrightarrow> st ! i ! j = EXACT_MATCH) \<and> ?Q (Suc j)"
      using True by (auto simp: le)
    show ?thesis
    proof (cases "line ! j \<noteq> CHR '' ''")
      case blank: False
      have "check_line line st i j ok = check_line line st i (Suc j) ok"
        using True gl blank by (subst check_line.simps) simp
      also have "\<dots> = Some (ok \<and> ?Q (Suc j))"
        using "1.IH"(2)[OF True gl _ "1.prems"] blank by simp
      finally show ?thesis using split blank by simp
    next
      case nonblank: True
      show ?thesis
      proof (cases "st ! i ! j \<noteq> EXACT_MATCH")
        case True
        have "check_line line st i j ok = Some False"
          using \<open>j < length line\<close> gl gc nonblank True by (subst check_line.simps) simp
        then show ?thesis using split nonblank True by simp
      next
        case False
        have "check_line line st i j ok = check_line line st i (Suc j) ok"
          using \<open>j < length line\<close> gl gc nonblank False by (subst check_line.simps) simp
        also have "\<dots> = Some (ok \<and> ?Q (Suc j))"
          using "1.IH"(1)[OF \<open>j < length line\<close> gl nonblank gc _ "1.prems"] False by simp
        finally show ?thesis using split nonblank False by simp
      qed
    qed
  qed
qed

lemma check_Some:
  assumes "shape_ok s"
  shows "check s = Some (\<forall>i p. i < length (code s) \<and> p < length (code s ! i)
                            \<and> code s ! i ! p \<noteq> CHR '' '' \<longrightarrow> state s ! i ! p = EXACT_MATCH)"
proof -
  let ?C = "\<lambda>k. \<forall>i p. i < k \<and> p < length (code s ! i)
                            \<and> code s ! i ! p \<noteq> CHR '' '' \<longrightarrow> state s ! i ! p = EXACT_MATCH"
  let ?body = "\<lambda>i ok. do { line \<leftarrow> get (code s) i; check_line line (state s) i 0 ok }"
  have "\<exists>a'. for_loop 0 (length (code s)) ?body True = Some a' \<and> a' = ?C (length (code s))"
  proof (rule for_loop_rule [where I = "\<lambda>k a. a = ?C k"])
    show "True = ?C 0" by simp
    show "0 \<le> length (code s)" by simp
  next
    fix k and a :: bool
    assume k: "k < length (code s)" and I: "a = ?C k"
    have ks: "k < length (state s)" using shape_ok_length[OF assms] k by simp
    have "?body k a = Some (a \<and> (\<forall>p. 0 \<le> p \<and> p < length (code s ! k)
              \<and> code s ! k ! p \<noteq> CHR '' '' \<longrightarrow> state s ! k ! p = EXACT_MATCH))"
      using k check_line_Some[OF ks shape_ok_row[OF assms k], of 0 a] by (simp add: get_Some)
    moreover have "(a \<and> (\<forall>p. 0 \<le> p \<and> p < length (code s ! k)
              \<and> code s ! k ! p \<noteq> CHR '' '' \<longrightarrow> state s ! k ! p = EXACT_MATCH)) = ?C (Suc k)"
      unfolding I by (auto simp: less_Suc_eq)
    ultimately show "\<exists>a'. ?body k a = Some a' \<and> a' = ?C (Suc k)" by simp
  qed
  then show ?thesis by (simp add: check_def)
qed

lemma check_preserved:
  assumes "shape_ok s" "mono_state (state s) st'" "check s = Some True"
  shows "check (s\<lparr>state := st'\<rparr>) = Some True"
proof -
  have ok': "shape_ok (s\<lparr>state := st'\<rparr>)"
    by (rule shape_ok_update[OF assms(1) mono_state_shape[OF assms(2)]])
  have all: "\<forall>i p. i < length (code s) \<and> p < length (code s ! i)
                 \<and> code s ! i ! p \<noteq> CHR '' '' \<longrightarrow> state s ! i ! p = EXACT_MATCH"
    using assms(3) check_Some[OF assms(1)] by simp
  have "st' ! i ! p = EXACT_MATCH"
    if h: "i < length (code s)" "p < length (code s ! i)" "code s ! i ! p \<noteq> CHR '' ''" for i p
  proof -
    have i: "i < length (state s)" using shape_ok_length[OF assms(1)] h(1) by simp
    have p: "p < length (state s ! i)" using shape_ok_row[OF assms(1) h(1)] h(2) by simp
    have "state s ! i ! p = EXACT_MATCH" using all h by blast
    then show ?thesis using mono_state_nth[OF assms(2) i p] by (simp add: mono_cell_def)
  qed
  then show ?thesis using check_Some[OF ok'] by simp
qed

lemma reveal_candidates_line:
  assumes "i < length (state s)" "length (state s ! i) = length line"
    and "\<forall>(a, b) \<in> set posVec. a < length (state s) \<and> b < length (state s ! a)"
  shows "\<exists>posVec'. for_loop 0 (length line)
            (\<lambda>j posVec. do {
               c \<leftarrow> get line j;
               if c \<noteq> CHR '' '' then do {
                 v \<leftarrow> get_cell (state s) i j;
                 Some (if v \<noteq> EXACT_MATCH then posVec @ [(i, j)] else posVec) }
               else Some posVec })
            posVec = Some posVec'
          \<and> (\<forall>(a, b) \<in> set posVec'. a < length (state s) \<and> b < length (state s ! a))"
proof (rule for_loop_rule
    [where I = "\<lambda>k pv. \<forall>(a, b) \<in> set pv. a < length (state s) \<and> b < length (state s ! a)"])
  show "\<forall>(a, b) \<in> set posVec. a < length (state s) \<and> b < length (state s ! a)"
    by (rule assms(3))
  show "0 \<le> length line" by simp
next
  fix k and pv :: "(nat \<times> nat) list"
  assume k: "k < length line"
    and I: "\<forall>(a, b) \<in> set pv. a < length (state s) \<and> b < length (state s ! a)"
  have gc: "get_cell (state s) i k = Some (state s ! i ! k)"
    using k assms(1,2) by (simp add: get_cell_Some)
  show "\<exists>a'. do {
               c \<leftarrow> get line k;
               if c \<noteq> CHR '' '' then do {
                 v \<leftarrow> get_cell (state s) i k;
                 Some (if v \<noteq> EXACT_MATCH then pv @ [(i, k)] else pv) }
               else Some pv } = Some a'
          \<and> (\<forall>(a, b) \<in> set a'. a < length (state s) \<and> b < length (state s ! a))"
    using k I gc assms(1,2) by (auto simp: get_Some)
qed

lemma reveal_candidates_Some:
  assumes "shape_ok s"
  shows "\<exists>posVec. reveal_candidates s = Some posVec
           \<and> (\<forall>(a, b) \<in> set posVec. a < length (state s) \<and> b < length (state s ! a))"
  unfolding reveal_candidates_def
proof (rule for_loop_rule
    [where I = "\<lambda>k pv. \<forall>(a, b) \<in> set pv. a < length (state s) \<and> b < length (state s ! a)"])
  show "\<forall>(a, b) \<in> set []. a < length (state s) \<and> b < length (state s ! a)" by simp
  show "0 \<le> length (code s)" by simp
next
  fix k and pv :: "(nat \<times> nat) list"
  assume k: "k < length (code s)"
    and I: "\<forall>(a, b) \<in> set pv. a < length (state s) \<and> b < length (state s ! a)"
  have ks: "k < length (state s)" using shape_ok_length[OF assms] k by simp
  show "\<exists>a'. do {
          line \<leftarrow> get (code s) k;
          for_loop 0 (length line)
            (\<lambda>j posVec. do {
               c \<leftarrow> get line j;
               if c \<noteq> CHR '' '' then do {
                 v \<leftarrow> get_cell (state s) k j;
                 Some (if v \<noteq> EXACT_MATCH then posVec @ [(k, j)] else posVec) }
               else Some posVec })
            pv } = Some a'
        \<and> (\<forall>(a, b) \<in> set a'. a < length (state s) \<and> b < length (state s ! a))"
    using reveal_candidates_line[OF ks shape_ok_row[OF assms k] I] k by (simp add: get_Some)
qed

lemma reveal_mono:
  assumes "shape_ok s"
  shows "\<exists>st'. reveal rnd s = Some (s\<lparr>state := st'\<rparr>) \<and> mono_state (state s) st'"
proof -
  from reveal_candidates_Some[OF assms] obtain posVec where
    pv: "reveal_candidates s = Some posVec"
      "\<forall>(a, b) \<in> set posVec. a < length (state s) \<and> b < length (state s ! a)"
    by blast
  show ?thesis
  proof (cases "posVec = []")
    case True
    have "reveal rnd s = Some (s\<lparr>state := state s\<rparr>)" using pv(1) True by (simp add: reveal_def)
    then show ?thesis using mono_state_refl by blast
  next
    case False
    let ?k = "rnd mod length posVec"
    have k: "?k < length posVec" using False by simp
    obtain a b where pos: "posVec ! ?k = (a, b)" by (cases "posVec ! ?k")
    have "(a, b) \<in> set posVec" using k pos by (metis nth_mem)
    then have r: "a < length (state s)" "b < length (state s ! a)" using pv(2) by auto
    from set_cell_Some[OF r, of EXACT_MATCH] obtain st' where
      st': "set_cell (state s) a b EXACT_MATCH = Some st'" "same_shape (state s) st'"
        "\<forall>i' p'. st' ! i' ! p' = (if i' = a \<and> p' = b then EXACT_MATCH else state s ! i' ! p')"
      by blast
    have "reveal rnd s = Some (s\<lparr>state := st'\<rparr>)"
      using pv(1) False k pos st'(1) by (simp add: reveal_def get_Some)
    moreover have "mono_state (state s) st'"
      by (rule mono_stateI[OF st'(2)]) (simp add: st'(3) mono_cell_def)
    ultimately show ?thesis by blast
  qed
qed

lemma apply_operation_mono:
  assumes "shape_ok s"
  shows "\<exists>st'. apply_operation x s = Some (s\<lparr>state := st'\<rparr>) \<and> mono_state (state s) st'"
proof (cases x)
  case (Guess g)
  from guess_mono[OF assms, of g] show ?thesis using Guess by auto
next
  case (Reveal rnd)
  from reveal_mono[OF assms, of rnd] show ?thesis using Reveal by simp
qed

lemma run_mono:
  assumes "shape_ok s"
  shows "\<exists>st'. run xs s = Some (s\<lparr>state := st'\<rparr>) \<and> mono_state (state s) st'"
  using assms
proof (induction xs arbitrary: s)
  case Nil
  have "run [] s = Some (s\<lparr>state := state s\<rparr>)" by simp
  then show ?case using mono_state_refl by blast
next
  case (Cons x xs)
  from apply_operation_mono[OF Cons.prems, of x] obtain st1 where
    1: "apply_operation x s = Some (s\<lparr>state := st1\<rparr>)" "mono_state (state s) st1"
    by blast
  have ok1: "shape_ok (s\<lparr>state := st1\<rparr>)"
    by (rule shape_ok_update[OF Cons.prems mono_state_shape[OF 1(2)]])
  from Cons.IH[OF ok1] obtain st2 where
    2: "run xs (s\<lparr>state := st1\<rparr>) = Some (s\<lparr>state := st1, state := st2\<rparr>)"
      "mono_state (state (s\<lparr>state := st1\<rparr>)) st2"
    by blast
  have "run (x # xs) s = Some (s\<lparr>state := st2\<rparr>)" using 1(1) 2(1) by simp
  moreover have "mono_state (state s) st2" using mono_state_trans[OF 1(2)] 2(2) by simp
  ultimately show ?case by blast
qed

text \<open>
  C3. Monotone reveal. Any sequence of guesses and assist reveals, run on a snippet whose
  state grid has the shape of its buffer, returns a snippet with the same buffer in which
  every position that was \<open>EXACT_MATCH\<close> is \<open>EXACT_MATCH\<close> and every position that was
  \<open>FUZZY_MATCH\<close> is \<open>FUZZY_MATCH\<close> or \<open>EXACT_MATCH\<close>, so not \<open>UNGUESSED\<close>; and if
  \<open>check\<close> held before the sequence, it holds after it.
\<close>

theorem reveal_state_monotone:
  assumes "shape_ok s"
  shows "\<exists>s'. run xs s = Some s' \<and> code s' = code s \<and> shape_ok s'
           \<and> (\<forall>i p. i < length (code s) \<and> p < length (code s ! i) \<longrightarrow>
                 (state s ! i ! p = EXACT_MATCH \<longrightarrow> state s' ! i ! p = EXACT_MATCH)
               \<and> (state s ! i ! p = FUZZY_MATCH \<longrightarrow>
                    (state s' ! i ! p = FUZZY_MATCH \<or> state s' ! i ! p = EXACT_MATCH)
                    \<and> state s' ! i ! p \<noteq> UNGUESSED))
           \<and> (check s = Some True \<longrightarrow> check s' = Some True)"
proof -
  from run_mono[OF assms, of xs] obtain st' where
    r: "run xs s = Some (s\<lparr>state := st'\<rparr>)" "mono_state (state s) st'"
    by blast
  have ok': "shape_ok (s\<lparr>state := st'\<rparr>)"
    by (rule shape_ok_update[OF assms mono_state_shape[OF r(2)]])
  have cells: "(state s ! i ! p = EXACT_MATCH \<longrightarrow> st' ! i ! p = EXACT_MATCH)
               \<and> (state s ! i ! p = FUZZY_MATCH \<longrightarrow>
                    (st' ! i ! p = FUZZY_MATCH \<or> st' ! i ! p = EXACT_MATCH)
                    \<and> st' ! i ! p \<noteq> UNGUESSED)"
    if h: "i < length (code s)" "p < length (code s ! i)" for i p
  proof -
    have i: "i < length (state s)" using shape_ok_length[OF assms] h(1) by simp
    have p: "p < length (state s ! i)" using shape_ok_row[OF assms h(1)] h(2) by simp
    show ?thesis
      using mono_state_nth[OF r(2) i p]
      by (auto simp: mono_cell_def EXACT_MATCH_def FUZZY_MATCH_def UNGUESSED_def)
  qed
  have chk: "check s = Some True \<longrightarrow> check (s\<lparr>state := st'\<rparr>) = Some True"
    using check_preserved[OF assms r(2)] by blast
  show ?thesis
    using r(1) ok' cells chk by (intro exI[of _ "s\<lparr>state := st'\<rparr>"]) simp
qed

theorem reveal_state_monotone_witness:
  "shape_ok example_snippet \<and> shape_ok example_complete
   \<and> run [Guess ''ine'', Reveal 3, Guess ''int'', Guess ''x''] example_snippet =
       Some (example_snippet\<lparr>state := [[2, 2, 2, 0, 2, 2, 2, 0, 2, 0, 0], [1, 1, 1, 0]]\<rparr>)
   \<and> check example_complete = Some True
   \<and> (\<exists>s'. run [Guess ''abc'', Reveal 3] example_complete = Some s'
          \<and> code s' = code example_complete \<and> check s' = Some True)
   \<and> (\<exists>s'. run [Guess ''ine'', Reveal 3, Guess ''int'', Guess ''x''] example_snippet = Some s'
          \<and> code s' = code example_snippet \<and> shape_ok s')"
proof -
  have h1: "shape_ok example_snippet" by (simp add: shape_ok_def example_snippet_def)
  have h2: "shape_ok example_complete" by (simp add: shape_ok_def example_complete_def)
  have c1: "run [Guess ''ine'', Reveal 3, Guess ''int'', Guess ''x''] example_snippet =
       Some (example_snippet\<lparr>state := [[2, 2, 2, 0, 2, 2, 2, 0, 2, 0, 0], [1, 1, 1, 0]]\<rparr>)"
    by code_simp
  have c2: "check example_complete = Some True" by code_simp
  show ?thesis
    using h1 h2 c1 c2
      reveal_state_monotone[OF h2, of "[Guess ''abc'', Reveal 3]"]
      reveal_state_monotone[OF h1, of "[Guess ''ine'', Reveal 3, Guess ''int'', Guess ''x'']"]
    by auto
qed

subsection \<open>Claims on the game modes\<close>

lemma to_string_MIN_LEN: "to_string (getMinLen s) = ''3''"
  by (simp add: getMinLen_def MIN_LEN_def to_string_def digits.simps digit_char_def)

lemma makeGuess_too_short:
  assumes "length gs < 3"
    and "\<not> (\<not> showPID g \<and> gs = ''P'')" and "\<not> (\<not> game_fuzzyAllowed g \<and> gs = ''F'')"
  shows "makeGuess revealTimes rnd gs g = Some ([''Guess must be at least 3 chars''], g)"
proof -
  have "guess gs (snippet g) = Some ((- 1, - 1), snippet g)"
    using assms(1) by (simp add: guess_too_short MIN_LEN_def)
  then show ?thesis
    using assms(2,3) by (simp add: makeGuess_def to_string_MIN_LEN)
qed

text \<open>
  C4, as amended. For a string of fewer than three characters \<open>guess\<close> returns the
  sentinel \<open>(-1, -1)\<close> and the snippet as it was. \<open>makeGuess\<close> on such a string never
  changes the guess counter or the snippet and never calls \<open>revealTimes\<close> or \<open>reveal\<close>
  (its result does not depend on them). Its message is the one that quotes the minimum
  length, with the game unchanged, unless the string is the control token \<open>P\<close> while the
  identifier is hidden, or \<open>F\<close> while fuzzy matching is off: then it switches that flag
  on and answers with the message of the switch.
\<close>

theorem short_guess_rejected:
  assumes "length gs < 3"
  shows "guess gs s = Some ((- 1, - 1), s)
       \<and> (\<exists>msg g'. makeGuess revealTimes rnd gs g = Some (msg, g')
             \<and> guesses g' = guesses g \<and> snippet g' = snippet g
             \<and> (if \<not> showPID g \<and> gs = ''P''
                then msg = [''PID showing enabled''] \<and> g' = g\<lparr>showPID := True\<rparr>
                else if \<not> game_fuzzyAllowed g \<and> gs = ''F''
                then msg = [''Fuzzy match enabled''] \<and> g' = g\<lparr>game_fuzzyAllowed := True\<rparr>
                else msg = [''Guess must be at least 3 chars''] \<and> g' = g))"
proof -
  have 1: "guess gs s = Some ((- 1, - 1), s)"
    using assms by (simp add: guess_too_short MIN_LEN_def)
  consider (p) "\<not> showPID g \<and> gs = ''P''"
    | (f) "\<not> (\<not> showPID g \<and> gs = ''P'')" "\<not> game_fuzzyAllowed g \<and> gs = ''F''"
    | (g) "\<not> (\<not> showPID g \<and> gs = ''P'')" "\<not> (\<not> game_fuzzyAllowed g \<and> gs = ''F'')"
    by blast
  then have "\<exists>msg g'. makeGuess revealTimes rnd gs g = Some (msg, g')
             \<and> guesses g' = guesses g \<and> snippet g' = snippet g
             \<and> (if \<not> showPID g \<and> gs = ''P''
                then msg = [''PID showing enabled''] \<and> g' = g\<lparr>showPID := True\<rparr>
                else if \<not> game_fuzzyAllowed g \<and> gs = ''F''
                then msg = [''Fuzzy match enabled''] \<and> g' = g\<lparr>game_fuzzyAllowed := True\<rparr>
                else msg = [''Guess must be at least 3 chars''] \<and> g' = g)"
  proof cases
    case p
    then show ?thesis by (simp add: makeGuess_def)
  next
    case f
    then show ?thesis by (simp add: makeGuess_def)
  next
    case g
    then show ?thesis using makeGuess_too_short[OF assms g, of revealTimes rnd] by simp
  qed
  then show ?thesis using 1 by blast
qed

theorem short_guess_rejected_witness:
  "length ''ab'' < 3 \<and> guess ''ab'' example_snippet = Some ((- 1, - 1), example_snippet)
   \<and> makeGuess pointGame_revealTimes example_rnd ''ab'' example_pointGame
       = Some ([''Guess must be at least 3 chars''], example_pointGame)
   \<and> makeGuess pointGame_revealTimes example_rnd ''F'' example_pointGame
       = Some ([''Fuzzy match enabled''], example_pointGame\<lparr>game_fuzzyAllowed := True\<rparr>)"
proof -
  have h: "length ''ab'' < 3" by simp
  have h': "length ''F'' < 3" by simp
  have f: "\<not> showPID example_pointGame" "\<not> game_fuzzyAllowed example_pointGame"
    by (simp_all add: example_pointGame_def)
  show ?thesis
    using h f
      short_guess_rejected[OF h, of example_snippet pointGame_revealTimes example_rnd
        example_pointGame]
      short_guess_rejected[OF h', of example_snippet pointGame_revealTimes example_rnd
        example_pointGame]
    by auto
qed

text \<open>
  The claim as stated fails on the control token \<open>P\<close>, which is shorter than three
  characters: while the identifier is hidden the answer is the message of the switch, not
  the message that quotes the minimum length.
\<close>

theorem short_guess_rejected_counterexample:
  "length ''P'' < 3
   \<and> makeGuess pointGame_revealTimes example_rnd ''P'' example_pointGame
       = Some ([''PID showing enabled''], example_pointGame\<lparr>showPID := True\<rparr>)
   \<and> map_option fst (makeGuess pointGame_revealTimes example_rnd ''P'' example_pointGame)
       \<noteq> Some [''Guess must be at least 3 chars'']"
  by (simp add: makeGuess_def example_pointGame_def)

lemma getGuessedNumber_line:
  assumes "i < length (state s)" "length (state s ! i) = length (code s ! i)"
  shows "for_loop 0 (length (code s ! i))
            (\<lambda>j guessed. do {
               c \<leftarrow> get (code s ! i) j;
               if c \<noteq> CHR '' '' then do {
                 v \<leftarrow> get_cell (state s) i j;
                 Some (if v = EXACT_MATCH then guessed + 1 else guessed) }
               else Some guessed })
            n0 = Some (n0 + int (length (guessed_in_line s i)))"
proof -
  let ?line = "code s ! i"
  let ?P = "\<lambda>j. ?line ! j \<noteq> CHR '' '' \<and> state s ! i ! j = EXACT_MATCH"
  let ?body = "\<lambda>j (guessed::int). do {
               c \<leftarrow> get ?line j;
               if c \<noteq> CHR '' '' then do {
                 v \<leftarrow> get_cell (state s) i j;
                 Some (if v = EXACT_MATCH then guessed + 1 else guessed) }
               else Some guessed }"
  let ?I = "\<lambda>k (n::int). n = n0 + int (length (filter ?P [0..<k]))"
  have "\<exists>n. for_loop 0 (length ?line) ?body n0 = Some n \<and> ?I (length ?line) n"
  proof (rule for_loop_rule [where I = ?I])
    show "?I 0 n0" by simp
    show "0 \<le> length ?line" by simp
  next
    fix k and n :: int
    assume k: "k < length ?line" and I: "?I k n"
    have gc: "get_cell (state s) i k = Some (state s ! i ! k)"
      using k assms by (simp add: get_cell_Some)
    show "\<exists>a'. ?body k n = Some a' \<and> ?I (Suc k) a'"
      using k gc I by (simp add: get_Some)
  qed
  then show ?thesis by (simp add: guessed_in_line_def)
qed

lemma getGuessedNumber_Some:
  assumes "shape_ok s"
  shows "getGuessedNumber s = Some (int (guessed_count s))"
proof -
  let ?G = "\<lambda>k. int (sum_list (map (\<lambda>i. length (guessed_in_line s i)) [0..<k]))"
  have "\<exists>n. getGuessedNumber s = Some n \<and> n = ?G (length (code s))"
    unfolding getGuessedNumber_def
  proof (rule for_loop_rule [where I = "\<lambda>k n. n = ?G k"])
    show "0 = ?G 0" by simp
    show "0 \<le> length (code s)" by simp
  next
    fix k and n :: int
    assume k: "k < length (code s)" and I: "n = ?G k"
    have ks: "k < length (state s)" using shape_ok_length[OF assms] k by simp
    show "\<exists>a'. do {
          line \<leftarrow> get (code s) k;
          for_loop 0 (length line)
            (\<lambda>j guessed. do {
               c \<leftarrow> get line j;
               if c \<noteq> CHR '' '' then do {
                 v \<leftarrow> get_cell (state s) k j;
                 Some (if v = EXACT_MATCH then guessed + 1 else guessed) }
               else Some guessed })
            n } = Some a' \<and> a' = ?G (Suc k)"
      using getGuessedNumber_line[OF ks shape_ok_row[OF assms k], of n] k I
      by (simp add: get_Some)
  qed
  then show ?thesis by (simp add: guessed_count_def)
qed

lemma calcPoint_unfold:
  "calcPoint fl g =
     map_option (\<lambda>guessed. g\<lparr>points := point_value fl g guessed\<rparr>)
       (getGuessedNumber (snippet g))"
  by (cases "getGuessedNumber (snippet g)") (simp_all add: calcPoint_def point_value_def Let_def)

lemma point_value_exact:
  assumes "totalNumber g \<noteq> 0" and "\<forall>x \<in> set (point_intermediates g guessed). fl x = x"
  shows "point_value fl g guessed = Some (point_ideal g guessed)"
proof -
  let ?G = "of_int guessed :: real"
  let ?T = "of_int (totalNumber g) :: real"
  let ?r1 = "pointFactor g * ?G"
  let ?r4 = "guessPenalty g * of_int (guesses g)"
  let ?r5 = "?r1 * ?G / ?T - ?r4"
  let ?r6 = "if showPID g then ?r5 * 0.5 else ?r5"
  let ?r7 = "if game_fuzzyAllowed g then ?r6 * 0.8 else ?r6"
  let ?r8 = "if guessed = totalNumber g then ?r7 * rewardFactor g else ?r7"
  have m: "fl x = x" if "x \<in> set (point_intermediates g guessed)" for x
    using assms(2) that by blast
  have e1: "fl ?r1 = ?r1" by (rule m) (simp add: point_intermediates_def Let_def)
  have e2: "fl (?r1 * ?G) = ?r1 * ?G" by (rule m) (simp add: point_intermediates_def Let_def)
  have e3: "fl (?r1 * ?G / ?T) = ?r1 * ?G / ?T"
    by (rule m) (simp add: point_intermediates_def Let_def)
  have e4: "fl ?r4 = ?r4" by (rule m) (simp add: point_intermediates_def Let_def)
  have e5: "fl ?r5 = ?r5" by (rule m) (simp add: point_intermediates_def Let_def)
  have e6: "fl ?r6 = ?r6" by (rule m) (simp add: point_intermediates_def Let_def)
  have e7: "fl ?r7 = ?r7" by (rule m) (simp add: point_intermediates_def Let_def)
  have e8: "fl ?r8 = ?r8" by (rule m) (simp add: point_intermediates_def Let_def)
  have c5: "fl 0.5 = 0.5" if "showPID g"
    by (rule m) (use that in \<open>simp add: point_intermediates_def Let_def\<close>)
  have c8: "fl 0.8 = 0.8" if "game_fuzzyAllowed g"
    by (rule m) (use that in \<open>simp add: point_intermediates_def Let_def\<close>)
  let ?p0 = "Some (fl (fl (fl (fl ?r1 * ?G) / ?T) - fl ?r4))"
  have s0: "?p0 = Some ?r5" by (simp only: e1 e2 e3 e4 e5)
  let ?p1 = "if showPID g then map_option (\<lambda>p. fl (p * showPidPenalty fl)) ?p0 else ?p0"
  have s1: "?p1 = Some ?r6"
  proof (cases "showPID g")
    case True
    have "?p1 = Some (fl (?r5 * fl 0.5))"
      unfolding s0 showPidPenalty_def using True by simp
    also have "\<dots> = Some (fl ?r6)" unfolding c5[OF True] using True by simp
    finally show ?thesis unfolding e6 .
  next
    case False
    then show ?thesis unfolding s0 by simp
  qed
  let ?p2 = "if game_fuzzyAllowed g then map_option (\<lambda>p. fl (p * fuzzyPenalty fl)) ?p1 else ?p1"
  have s2: "?p2 = Some ?r7"
  proof (cases "game_fuzzyAllowed g")
    case True
    have "?p2 = Some (fl (?r6 * fl 0.8))"
      unfolding s1 fuzzyPenalty_def using True by simp
    also have "\<dots> = Some (fl ?r7)" unfolding c8[OF True] using True by simp
    finally show ?thesis unfolding e7 .
  next
    case False
    then show ?thesis unfolding s1 by simp
  qed
  let ?p3 = "if guessed = totalNumber g then map_option (\<lambda>p. fl (p * rewardFactor g)) ?p2 else ?p2"
  have s3: "?p3 = Some ?r8"
  proof (cases "guessed = totalNumber g")
    case True
    have "?p3 = Some (fl (?r7 * rewardFactor g))"
      unfolding s2 using True by simp
    also have "\<dots> = Some (fl ?r8)" using True by simp
    finally show ?thesis unfolding e8 .
  next
    case False
    then show ?thesis unfolding s2 by simp
  qed
  have "point_value fl g guessed = ?p3"
    unfolding point_value_def Let_def using assms(1) by simp
  also have "\<dots> = Some ?r8" by (rule s3)
  also have "?r8 = point_ideal g guessed"
    by (simp add: point_ideal_def power2_eq_square)
  finally show ?thesis .
qed

lemma example_fl_int: "example_fl (of_int k) = of_int k"
proof -
  have "\<lfloor>(of_int k :: real) * 1024 + 1 / 2\<rfloor> = k * 1024"
    by (rule floor_unique) simp_all
  then show ?thesis by (simp add: example_fl_def)
qed

text \<open>
  C5. Point formula. Every operation on \<^verbatim>\<open>double\<close>s is the operation on the reals
  followed by a rounding \<open>fl\<close>. With \<open>guessed\<close> the number of exactly guessed characters
  and a total that is not zero, \<open>calcPoint\<close> stores points. Where the rounding leaves the
  real numbers that the computation passes through as they are, the points are the real
  number \<open>pointFactor * guessed\<^sup>2 / total - guessPenalty * guesses\<close>, times \<open>0.5\<close> if the
  identifier is shown, times \<open>0.8\<close> if fuzzy matching is on, times \<open>rewardFactor\<close> if
  \<open>guessed = total\<close>. With total 100, guessed 100, 10 guesses, factor 500, penalty 100,
  reward 1.5, fuzzy off and identifier hidden, all those numbers are whole: for every
  rounding that leaves the whole numbers up to \<open>2\<^sup>5\<^sup>3\<close> as they are, as that to
  \<^verbatim>\<open>double\<close> does, the points are 73500.
\<close>

theorem point_formula:
  assumes "getGuessedNumber (snippet g) = Some guessed" and "totalNumber g \<noteq> 0"
  shows "\<exists>g'. calcPoint fl g = Some g'
            \<and> ((\<forall>x \<in> set (point_intermediates g guessed). fl x = x)
               \<longrightarrow> points g' = Some
                ((pointFactor g * (of_int guessed)\<^sup>2 / of_int (totalNumber g)
                    - guessPenalty g * of_int (guesses g))
                 * (if showPID g then 0.5 else 1)
                 * (if game_fuzzyAllowed g then 0.8 else 1)
                 * (if guessed = totalNumber g then rewardFactor g else 1)))
            \<and> ((\<forall>k::int. \<bar>k\<bar> \<le> 2 ^ 53 \<longrightarrow> fl (of_int k) = of_int k)
                 \<and> totalNumber g = 100 \<and> guessed = 100 \<and> guesses g = 10 \<and> pointFactor g = 500
                 \<and> guessPenalty g = 100 \<and> rewardFactor g = 1.5
                 \<and> \<not> game_fuzzyAllowed g \<and> \<not> showPID g
               \<longrightarrow> points g' = Some 73500)"
proof -
  let ?g' = "g\<lparr>points := point_value fl g guessed\<rparr>"
  have c: "calcPoint fl g = Some ?g'"
    using assms(1) by (simp add: calcPoint_unfold)
  have a: "points ?g' = Some
                ((pointFactor g * (of_int guessed)\<^sup>2 / of_int (totalNumber g)
                    - guessPenalty g * of_int (guesses g))
                 * (if showPID g then 0.5 else 1)
                 * (if game_fuzzyAllowed g then 0.8 else 1)
                 * (if guessed = totalNumber g then rewardFactor g else 1))"
    if "\<forall>x \<in> set (point_intermediates g guessed). fl x = x"
    using point_value_exact[OF assms(2) that] by (simp add: point_ideal_def)
  have b: "points ?g' = Some 73500"
    if h: "(\<forall>k::int. \<bar>k\<bar> \<le> 2 ^ 53 \<longrightarrow> fl (of_int k) = of_int k)
                 \<and> totalNumber g = 100 \<and> guessed = 100 \<and> guesses g = 10 \<and> pointFactor g = 500
                 \<and> guessPenalty g = 100 \<and> rewardFactor g = 1.5
                 \<and> \<not> game_fuzzyAllowed g \<and> \<not> showPID g"
  proof -
    have fx: "fl (of_int k) = of_int k" if "\<bar>k\<bar> \<le> 2 ^ 53" for k :: int
      using h that by blast
    have v: "fl 50000 = 50000" "fl 5000000 = 5000000" "fl 1000 = 1000" "fl 49000 = 49000"
      "fl 73500 = 73500"
      using fx[of 50000] fx[of 5000000] fx[of 1000] fx[of 49000] fx[of 73500] by simp_all
    have eqs: "totalNumber g = 100" "guessed = 100" "guesses g = 10" "pointFactor g = 500"
      "guessPenalty g = 100" "rewardFactor g = 1.5" "game_fuzzyAllowed g = False"
      "showPID g = False"
      using h by blast+
    have i: "\<forall>x \<in> set (point_intermediates g guessed). fl x = x"
      unfolding point_intermediates_def Let_def eqs using v by simp
    show ?thesis using a[OF i] unfolding eqs by simp
  qed
  show ?thesis using c a b by (intro exI[of _ ?g']) blast
qed

theorem point_formula_witness:
  "getGuessedNumber (snippet example_pointGame_full) = Some 100
   \<and> totalNumber example_pointGame_full \<noteq> 0
   \<and> getTotalNumber (snippet example_pointGame_full) = 100
   \<and> example_fl 73500 = 73500
   \<and> (\<exists>g'. calcPoint example_fl example_pointGame_full = Some g' \<and> points g' = Some 73500)
   \<and> (\<exists>g'. calcPoint (\<lambda>x. x) example_pointGame_full = Some g' \<and> points g' = Some 73500)"
proof -
  have h1: "getGuessedNumber (snippet example_pointGame_full) = Some 100" by code_simp
  have h2: "totalNumber example_pointGame_full \<noteq> 0" by (simp add: example_pointGame_full_def)
  have h3: "getTotalNumber (snippet example_pointGame_full) = 100" by code_simp
  have f: "\<forall>k::int. \<bar>k\<bar> \<le> 2 ^ 53 \<longrightarrow> example_fl (of_int k) = of_int k"
    by (simp add: example_fl_int)
  have v: "totalNumber example_pointGame_full = 100 \<and> (100::int) = 100
      \<and> guesses example_pointGame_full = 10 \<and> pointFactor example_pointGame_full = 500
      \<and> guessPenalty example_pointGame_full = 100 \<and> rewardFactor example_pointGame_full = 1.5
      \<and> \<not> game_fuzzyAllowed example_pointGame_full \<and> \<not> showPID example_pointGame_full"
    by (simp add: example_pointGame_full_def)
  have a: "\<exists>g'. calcPoint example_fl example_pointGame_full = Some g' \<and> points g' = Some 73500"
    using point_formula[OF h1 h2, of example_fl] f v by blast
  have b: "\<exists>g'. calcPoint (\<lambda>x. x) example_pointGame_full = Some g' \<and> points g' = Some 73500"
    using point_formula[OF h1 h2, of "\<lambda>x. x"] v by auto
  have e: "example_fl 73500 = 73500" using example_fl_int[of 73500] by simp
  show ?thesis using h1 h2 h3 e a b by blast
qed

text \<open>
  C8. Validation in the constructor of the point game. Coefficients with a penalty that is
  not positive, a point factor that is not positive, or a reward factor below one make the
  constructor throw an \<^verbatim>\<open>AppException\<close>: no game is made. Otherwise the constructor
  returns a game that holds the three coefficients as given.
\<close>

theorem pointGame_validation:
  "(penalty \<le> 0 \<or> pfactor \<le> 0 \<or> rfactor < 1
      \<longrightarrow> (\<exists>msg. pointGame_new r st fuzzy sh penalty pfactor rfactor u
                    = Inl (AppException (''[Error] '' @ msg))))
   \<and> (0 < penalty \<and> 0 < pfactor \<and> 1 \<le> rfactor
      \<longrightarrow> (\<exists>g. pointGame_new r st fuzzy sh penalty pfactor rfactor u = Inr g
                \<and> guessPenalty g = penalty \<and> pointFactor g = pfactor \<and> rewardFactor g = rfactor
                \<and> game_fuzzyAllowed g = fuzzy \<and> showPID g = sh \<and> guesses g = 0))"
  by (auto simp: pointGame_new_def AppException_new_def)

theorem pointGame_validation_witness:
  "pointGame_new example_repo example_stats False False 0 500 1.5 0
     = Inl (AppException ''[Error] Penalty must be positive'')
   \<and> pointGame_new example_repo example_stats False False 100 (- 1) 1.5 0
     = Inl (AppException ''[Error] Point factor must be positive'')
   \<and> pointGame_new example_repo example_stats False False 100 500 0.5 0
     = Inl (AppException ''[Error] Reward factor must be not less than 1.0'')
   \<and> (\<exists>msg. pointGame_new example_repo example_stats False False 100 500 0.5 0
           = Inl (AppException (''[Error] '' @ msg)))
   \<and> (\<exists>g. pointGame_new example_repo example_stats False False 100 500 1.5 0 = Inr g
         \<and> guessPenalty g = 100 \<and> pointFactor g = 500 \<and> rewardFactor g = 1.5)"
proof -
  have a: "(100::real) \<le> 0 \<or> (500::real) \<le> 0 \<or> (0.5::real) < 1" by simp
  have b: "0 < (100::real) \<and> 0 < (500::real) \<and> 1 \<le> (1.5::real)" by simp
  have c: "pointGame_new example_repo example_stats False False 0 500 1.5 0
             = Inl (AppException ''[Error] Penalty must be positive'')
         \<and> pointGame_new example_repo example_stats False False 100 (- 1) 1.5 0
             = Inl (AppException ''[Error] Point factor must be positive'')
         \<and> pointGame_new example_repo example_stats False False 100 500 0.5 0
             = Inl (AppException ''[Error] Reward factor must be not less than 1.0'')"
    by (simp add: pointGame_new_def AppException_new_def)
  show ?thesis
    using a b c
      pointGame_validation[of 100 500 "0.5" example_repo example_stats False False 0]
      pointGame_validation[of 100 500 "1.5" example_repo example_stats False False 0]
    by blast
qed

lemma sdiv_nonneg: "0 \<le> a \<Longrightarrow> 0 < b \<Longrightarrow> a sdiv b = a div (b::int)"
  by (simp add: signed_divide_int_def sgn_if)

lemma count_nonblank_ge:
  "t0 \<le> fold (\<lambda>c total. if c \<noteq> CHR '' '' then total + 1 else total) line (t0::int)"
proof (induction line arbitrary: t0)
  case Nil
  show ?case by simp
next
  case (Cons c line)
  have "t0 \<le> (if c \<noteq> CHR '' '' then t0 + 1 else t0)" by simp
  also have "\<dots> \<le> fold (\<lambda>c total. if c \<noteq> CHR '' '' then total + 1 else total) line
                      (if c \<noteq> CHR '' '' then t0 + 1 else t0)"
    by (rule Cons.IH)
  finally show ?case by simp
qed

lemma count_lines_ge:
  "t0 \<le> fold (\<lambda>line total. fold (\<lambda>c total. if c \<noteq> CHR '' '' then total + 1 else total)
                      line total) ls (t0::int)"
proof (induction ls arbitrary: t0)
  case Nil
  show ?case by simp
next
  case (Cons l ls)
  let ?t = "fold (\<lambda>c total. if c \<noteq> CHR '' '' then total + 1 else total) l t0"
  have "t0 \<le> ?t" by (rule count_nonblank_ge)
  also have "\<dots> \<le> fold (\<lambda>line total. fold (\<lambda>c total. if c \<noteq> CHR '' '' then total + 1 else total)
                      line total) ls ?t"
    by (rule Cons.IH)
  finally show ?case by simp
qed

lemma getTotalNumber_nonneg: "0 \<le> getTotalNumber s"
  unfolding getTotalNumber_def by (rule count_lines_ge)

lemma guessLimitedGame_start_limit:
  assumes "guessLimitedGame_start fs rnd g = Inr (True, g')"
  shows "maxGuesses g' = max (getTotalNumber (snippet g') div 3 + 5) 30"
proof -
  from assms obtain sn where
    g': "g' = g\<lparr>pid := CodeRepo_random rnd (repo g), snippet := sn,
                maxGuesses := max (getTotalNumber sn sdiv 3 + 5) 30\<rparr>"
    by (auto simp: guessLimitedGame_start_def Let_def split: if_splits sum.splits)
  have "getTotalNumber sn sdiv 3 = getTotalNumber sn div 3"
    by (rule sdiv_nonneg[OF getTotalNumber_nonneg]) simp
  then show ?thesis by (simp add: g')
qed

lemma makeGuess_guessLimited_maxGuesses:
  assumes "makeGuess guessLimitedGame_revealTimes rnd gs g = Some (msg, g')"
  shows "maxGuesses g' = maxGuesses g"
  using assms
  by (auto simp: makeGuess_def guessLimitedGame_revealTimes_def Let_def bind_eq_Some_conv
           split: if_splits prod.splits)

text \<open>
  C6. Guess limit. When \<open>start\<close> of the guess-limited game succeeds, the limit is
  \<open>max (total div 3 + 5) 30\<close> for the total number of non-blank characters of the loaded
  snippet, which is 30 for a total of 60. \<open>makeGuess\<close> keeps the limit, and in every
  state of the game \<open>isOver\<close> holds exactly if the guess counter is at least the limit.
\<close>

theorem guess_limit:
  assumes "guessLimitedGame_start fs rnd g = Inr (True, g')"
  shows "maxGuesses g' = max (getTotalNumber (snippet g') div 3 + 5) 30
       \<and> (getTotalNumber (snippet g') = 60 \<longrightarrow> maxGuesses g' = 30)
       \<and> guessLimitedGame_isOver g' = (maxGuesses g' \<le> guesses g')
       \<and> (\<forall>n. guessLimitedGame_isOver (g'\<lparr>guesses := n\<rparr>) = (maxGuesses g' \<le> n))
       \<and> (\<forall>rnd' gs msg g''.
             makeGuess guessLimitedGame_revealTimes rnd' gs g' = Some (msg, g'')
             \<longrightarrow> maxGuesses g'' = maxGuesses g'
                \<and> guessLimitedGame_isOver g'' = (maxGuesses g' \<le> guesses g''))"
proof -
  have m: "maxGuesses g' = max (getTotalNumber (snippet g') div 3 + 5) 30"
    by (rule guessLimitedGame_start_limit[OF assms])
  have e: "getTotalNumber (snippet g') = 60 \<longrightarrow> maxGuesses g' = 30"
    using m by simp
  have k: "maxGuesses g'' = maxGuesses g'
           \<and> guessLimitedGame_isOver g'' = (maxGuesses g' \<le> guesses g'')"
    if "makeGuess guessLimitedGame_revealTimes rnd' gs g' = Some (msg, g'')"
    for rnd' gs msg g''
    using makeGuess_guessLimited_maxGuesses[OF that] by (simp add: guessLimitedGame_isOver_def)
  show ?thesis
    using m e k by (simp add: guessLimitedGame_isOver_def)
qed

theorem guess_limit_witness:
  "(\<exists>g'. guessLimitedGame_start example_fs 1 example_guessLimitedGame = Inr (True, g')
       \<and> pid g' = ''P1002'' \<and> getTotalNumber (snippet g') = 60 \<and> maxGuesses g' = 30
       \<and> \<not> guessLimitedGame_isOver (g'\<lparr>guesses := 29\<rparr>)
       \<and> guessLimitedGame_isOver (g'\<lparr>guesses := 30\<rparr>))"
proof -
  let ?g = "example_guessLimitedGame
              \<lparr>pid := ''P1002'',
               snippet := \<lparr>path = ''repo/P1002.txt'',
                           code = replicate 3 (replicate 20 CHR ''x'' @ ''  ''),
                           state = replicate 3 (replicate 22 0), fuzzyAllowed = True\<rparr>,
               maxGuesses := 30\<rparr>"
  have h: "guessLimitedGame_start example_fs 1 example_guessLimitedGame = Inr (True, ?g)"
    by code_simp
  have t: "getTotalNumber (snippet ?g) = 60" by code_simp
  have p: "pid ?g = ''P1002''" by simp
  show ?thesis
    using h t p guess_limit[OF h] by (intro exI[of _ ?g]) simp
qed

subsection \<open>The point game never ends by itself\<close>

lemma calcPoint_Some:
  assumes "shape_ok (snippet g)"
  shows "calcPoint fl g =
           Some (g\<lparr>points := point_value fl g (int (guessed_count (snippet g)))\<rparr>)"
  using getGuessedNumber_Some[OF assms] by (simp add: calcPoint_unfold)

lemma point_value_update:
  "point_value fl (g\<lparr>points := p, stats := st\<rparr>) n = point_value fl g n"
  by (simp add: point_value_def Let_def)

lemma pointGame_Win_Some:
  assumes "shape_ok (snippet g)" and "p = point_value fl g (int (guessed_count (snippet g)))"
  shows "pointGame_Win fl fmt t g =
           Some (''You achieved '' @ fmt p @ '' points!'',
                 g\<lparr>points := p,
                   stats := (stats g)
                     \<lparr>pointGames := pointGames (stats g) + 1,
                      totalPoints := do { a \<leftarrow> totalPoints (stats g); x \<leftarrow> p; Some (fl (a + x)) },
                      totalGames := totalGames (stats g) + 1,
                      gameHistory := gameHistory (stats g)
                        @ [format t ''Point'' (pid g) (''points: '' @ fmt p @ '' Win'')]\<rparr>\<rparr>)"
proof -
  let ?st = "(stats g)
                     \<lparr>pointGames := pointGames (stats g) + 1,
                      totalPoints := do { a \<leftarrow> totalPoints (stats g); x \<leftarrow> p; Some (fl (a + x)) },
                      totalGames := totalGames (stats g) + 1,
                      gameHistory := gameHistory (stats g)
                        @ [format t ''Point'' (pid g) (''points: '' @ fmt p @ '' Win'')]\<rparr>"
  have c: "calcPoint fl g = Some (g\<lparr>points := p\<rparr>)"
    using calcPoint_Some[OF assms(1)] assms(2) by simp
  have s: "pointGame_saveStatistics fl fmt t True g = Some (g\<lparr>points := p, stats := ?st\<rparr>)"
    using c by (simp add: pointGame_saveStatistics_def addGame_double_def Let_def)
  have ok: "shape_ok (snippet (g\<lparr>points := p, stats := ?st\<rparr>))" using assms(1) by simp
  have c2: "calcPoint fl (g\<lparr>points := p, stats := ?st\<rparr>) = Some (g\<lparr>points := p, stats := ?st\<rparr>)"
    using calcPoint_Some[OF ok] assms(2) by (simp add: point_value_update)
  show ?thesis
    using s c2 by (simp add: pointGame_Win_def)
qed

text \<open>
  C9. The point game. \<open>isOver\<close> is false in every state. \<open>Lose\<close> is \<open>Win\<close>: on a game
  whose snippet has a state grid of the shape of its buffer it computes the points \<open>p\<close>,
  which may be negative, and appends to the history the record of a point game whose
  summary reads \<open>points: p Win\<close>; the point games and the games played go up by one.
\<close>

theorem point_mode_never_over:
  assumes "shape_ok (snippet g)"
  shows "\<not> pointGame_isOver g
       \<and> pointGame_Lose fl fmt t g = pointGame_Win fl fmt t g
       \<and> (\<exists>p g'. calcPoint fl g = Some (g\<lparr>points := p\<rparr>)
             \<and> pointGame_Lose fl fmt t g = Some (''You achieved '' @ fmt p @ '' points!'', g')
             \<and> points g' = p
             \<and> gameHistory (stats g') = gameHistory (stats g)
                 @ [format t ''Point'' (pid g) (''points: '' @ fmt p @ '' Win'')]
             \<and> pointGames (stats g') = pointGames (stats g) + 1
             \<and> totalGames (stats g') = totalGames (stats g) + 1)"
proof -
  let ?p = "point_value fl g (int (guessed_count (snippet g)))"
  show ?thesis
    using calcPoint_Some[OF assms, of fl] pointGame_Win_Some[OF assms refl, of fl fmt t]
    by (simp add: pointGame_isOver_def pointGame_Lose_def)
qed

theorem point_mode_never_over_witness:
  "shape_ok (snippet example_pointGame) \<and> \<not> pointGame_isOver example_pointGame
   \<and> calcPoint example_fl example_pointGame = Some (example_pointGame\<lparr>points := Some (- 1000)\<rparr>)
   \<and> (\<exists>g'. pointGame_Lose example_fl example_to_string example_time example_pointGame
              = Some (''You achieved -1000.000000 points!'', g')
          \<and> points g' = Some (- 1000)
          \<and> gameHistory (stats g') =
              [''Tue May 13 17:21:15 2025  Point             P1001  points: -1000.000000 Win'']
          \<and> pointGames (stats g') = 1 \<and> totalGames (stats g') = 1)"
proof -
  have h: "shape_ok (snippet example_pointGame)"
    by (simp add: shape_ok_def example_pointGame_def example_snippet_def)
  have n: "getGuessedNumber (snippet example_pointGame) = Some 0" by code_simp
  have t: "totalNumber example_pointGame \<noteq> 0" by (simp add: example_pointGame_def)
  have v: "example_fl 0 = 0" "example_fl 1000 = 1000" "example_fl (- 1000) = - 1000"
    using example_fl_int[of 0] example_fl_int[of 1000] example_fl_int[of "- 1000"] by simp_all
  have i: "\<forall>x \<in> set (point_intermediates example_pointGame 0). example_fl x = x"
    using v by (simp add: point_intermediates_def example_pointGame_def Let_def)
  have "point_value example_fl example_pointGame 0 = Some (point_ideal example_pointGame 0)"
    by (rule point_value_exact[OF t i])
  then have pv: "point_value example_fl example_pointGame 0 = Some (- 1000)"
    by (simp add: point_ideal_def example_pointGame_def)
  have c: "calcPoint example_fl example_pointGame
             = Some (example_pointGame\<lparr>points := Some (- 1000)\<rparr>)"
    using n pv by (simp add: calcPoint_unfold)
  from point_mode_never_over[OF h, of example_fl example_to_string example_time]
  obtain p g' where
    r: "\<not> pointGame_isOver example_pointGame"
      "calcPoint example_fl example_pointGame = Some (example_pointGame\<lparr>points := p\<rparr>)"
      "pointGame_Lose example_fl example_to_string example_time example_pointGame
         = Some (''You achieved '' @ example_to_string p @ '' points!'', g')"
      "points g' = p"
      "gameHistory (stats g') = gameHistory (stats example_pointGame)
         @ [format example_time ''Point'' (pid example_pointGame)
              (''points: '' @ example_to_string p @ '' Win'')]"
      "pointGames (stats g') = pointGames (stats example_pointGame) + 1"
      "totalGames (stats g') = totalGames (stats example_pointGame) + 1"
    by blast
  have "points (example_pointGame\<lparr>points := p\<rparr>) = points (example_pointGame\<lparr>points := Some (- 1000)\<rparr>)"
    using c r(2) by simp
  then have p: "p = Some (- 1000)" by simp
  have s: "example_to_string (Some (- 1000)) = ''-1000.000000''"
    by (simp add: example_to_string_def to_string_def digits.simps digit_char_def)
  have f: "format example_time ''Point'' ''P1001'' (''points: '' @ ''-1000.000000'' @ '' Win'')
           = ''Tue May 13 17:21:15 2025  Point             P1001  points: -1000.000000 Win''"
    by code_simp
  have e: "gameHistory (stats example_pointGame) = []" "pid example_pointGame = ''P1001''"
    "pointGames (stats example_pointGame) = 0" "totalGames (stats example_pointGame) = 0"
    by (simp_all add: example_pointGame_def example_stats_def)
  show ?thesis
    using h c r(1) r(3-7) unfolding p s e f by (intro conjI exI[of _ g']) simp_all
qed

subsection \<open>Catch-up reveals of the time-attack game\<close>

lemma revealTimes_eq:
  assumes "lastRevealTime g \<le> now"
  shows "timeAttackGame_revealTimes now g =
           ((now - lastRevealTime g) div (10 * ticks_per_second),
            g\<lparr>lastRevealTime := lastRevealTime g
                 + 10 * ticks_per_second * ((now - lastRevealTime g) div (10 * ticks_per_second))\<rparr>)"
proof -
  let ?d = "now - lastRevealTime g"
  have d: "0 \<le> ?d" using assms by simp
  have 1: "duration_cast_seconds ?d = ?d div ticks_per_second"
    unfolding duration_cast_seconds_def
    by (rule sdiv_nonneg[OF d]) (simp add: ticks_per_second_def)
  have "0 \<le> ?d div ticks_per_second"
    by (rule pos_imp_zdiv_nonneg_iff[THEN iffD2, OF _ d]) (simp add: ticks_per_second_def)
  then have 2: "(?d div ticks_per_second) sdiv revealTime = ?d div ticks_per_second div 10"
    unfolding revealTime_def by (rule sdiv_nonneg) simp
  have 3: "?d div ticks_per_second div 10 = ?d div (10 * ticks_per_second)"
    by (simp add: zdiv_zmult2_eq ticks_per_second_def mult.commute)
  show ?thesis
    unfolding timeAttackGame_revealTimes_def Let_def 1 2 3
    by (simp add: seconds_def revealTime_def mult.commute mult.left_commute)
qed

lemma revealTimes_additive:
  assumes "lastRevealTime g \<le> now" "now \<le> now'"
  shows "fst (timeAttackGame_revealTimes now g)
           + fst (timeAttackGame_revealTimes now' (snd (timeAttackGame_revealTimes now g)))
         = fst (timeAttackGame_revealTimes now' g)
       \<and> snd (timeAttackGame_revealTimes now' (snd (timeAttackGame_revealTimes now g)))
         = snd (timeAttackGame_revealTimes now' g)"
proof -
  let ?T = "10 * ticks_per_second"
  let ?d = "now - lastRevealTime g"
  let ?d' = "now' - lastRevealTime g"
  let ?c = "?d div ?T"
  let ?g1 = "g\<lparr>lastRevealTime := lastRevealTime g + ?T * ?c\<rparr>"
  have T: "0 < ?T" by (simp add: ticks_per_second_def)
  have a: "timeAttackGame_revealTimes now g = (?c, ?g1)" by (rule revealTimes_eq[OF assms(1)])
  have "?d = ?T * ?c + ?d mod ?T" by simp
  moreover have "0 \<le> ?d mod ?T" using T by simp
  ultimately have "?T * ?c \<le> ?d" by linarith
  then have l1: "lastRevealTime ?g1 \<le> now'" using assms(2) by simp
  have b: "timeAttackGame_revealTimes now' ?g1 =
             ((now' - lastRevealTime ?g1) div ?T,
              ?g1\<lparr>lastRevealTime := lastRevealTime ?g1
                     + ?T * ((now' - lastRevealTime ?g1) div ?T)\<rparr>)"
    by (rule revealTimes_eq[OF l1])
  have c: "timeAttackGame_revealTimes now' g =
             (?d' div ?T, g\<lparr>lastRevealTime := lastRevealTime g + ?T * (?d' div ?T)\<rparr>)"
    using assms by (intro revealTimes_eq) simp
  have n: "now' - lastRevealTime ?g1 = ?d' + (- ?c) * ?T" by (simp add: algebra_simps)
  have "(?d' + (- ?c) * ?T) div ?T = (- ?c) + ?d' div ?T"
    by (rule div_mult_self1) (use T in simp)
  then have e: "(now' - lastRevealTime ?g1) div ?T = ?d' div ?T - ?c"
    unfolding n by simp
  show ?thesis
    unfolding a b c fst_conv snd_conv e by (simp add: algebra_simps)
qed

lemma reveal_candidates_line_eq:
  assumes "i < length (state s)" "length (state s ! i) = length (code s ! i)"
  shows "for_loop 0 (length (code s ! i))
            (\<lambda>j posVec. do {
               c \<leftarrow> get (code s ! i) j;
               if c \<noteq> CHR '' '' then do {
                 v \<leftarrow> get_cell (state s) i j;
                 Some (if v \<noteq> EXACT_MATCH then posVec @ [(i, j)] else posVec) }
               else Some posVec })
            pv0 = Some (pv0 @ map (Pair i) (candidates_in_line s i))"
proof -
  let ?line = "code s ! i"
  let ?C = "\<lambda>j. ?line ! j \<noteq> CHR '' '' \<and> state s ! i ! j \<noteq> EXACT_MATCH"
  let ?body = "\<lambda>j (posVec :: (nat \<times> nat) list). do {
               c \<leftarrow> get ?line j;
               if c \<noteq> CHR '' '' then do {
                 v \<leftarrow> get_cell (state s) i j;
                 Some (if v \<noteq> EXACT_MATCH then posVec @ [(i, j)] else posVec) }
               else Some posVec }"
  let ?I = "\<lambda>k (pv :: (nat \<times> nat) list). pv = pv0 @ map (Pair i) (filter ?C [0..<k])"
  have "\<exists>pv. for_loop 0 (length ?line) ?body pv0 = Some pv \<and> ?I (length ?line) pv"
  proof (rule for_loop_rule [where I = ?I])
    show "?I 0 pv0" by simp
    show "0 \<le> length ?line" by simp
  next
    fix k and pv :: "(nat \<times> nat) list"
    assume k: "k < length ?line" and I: "?I k pv"
    have gc: "get_cell (state s) i k = Some (state s ! i ! k)"
      using k assms by (simp add: get_cell_Some)
    show "\<exists>a'. ?body k pv = Some a' \<and> ?I (Suc k) a'"
      using k gc I by (simp add: get_Some)
  qed
  then show ?thesis by (simp add: candidates_in_line_def)
qed

lemma reveal_candidates_eq:
  assumes "shape_ok s"
  shows "reveal_candidates s = Some (candidates s)"
proof -
  let ?K = "\<lambda>k. concat (map (\<lambda>i. map (Pair i) (candidates_in_line s i)) [0..<k])"
  have "\<exists>pv. reveal_candidates s = Some pv \<and> pv = ?K (length (code s))"
    unfolding reveal_candidates_def
  proof (rule for_loop_rule [where I = "\<lambda>k pv. pv = ?K k"])
    show "[] = ?K 0" by simp
    show "0 \<le> length (code s)" by simp
  next
    fix k and pv :: "(nat \<times> nat) list"
    assume k: "k < length (code s)" and I: "pv = ?K k"
    have ks: "k < length (state s)" using shape_ok_length[OF assms] k by simp
    show "\<exists>a'. do {
          line \<leftarrow> get (code s) k;
          for_loop 0 (length line)
            (\<lambda>j posVec. do {
               c \<leftarrow> get line j;
               if c \<noteq> CHR '' '' then do {
                 v \<leftarrow> get_cell (state s) k j;
                 Some (if v \<noteq> EXACT_MATCH then posVec @ [(k, j)] else posVec) }
               else Some posVec })
            pv } = Some a' \<and> a' = ?K (Suc k)"
      using reveal_candidates_line_eq[OF ks shape_ok_row[OF assms k], of pv] k I
      by (simp add: get_Some)
  qed
  then show ?thesis by (simp add: candidates_def)
qed

lemma candidates_mem:
  "(a, b) \<in> set (candidates s) \<longleftrightarrow>
     a < length (code s) \<and> b < length (code s ! a)
     \<and> code s ! a ! b \<noteq> CHR '' '' \<and> state s ! a ! b \<noteq> EXACT_MATCH"
  by (auto simp: candidates_def candidates_in_line_def)

lemma length_candidates:
  "length (candidates s) =
     sum_list (map (\<lambda>i. length (candidates_in_line s i)) [0..<length (code s)])"
  by (simp add: candidates_def length_concat comp_def)

lemma filter_upt_add_one:
  assumes "b < n" "\<not> P b"
  shows "length (filter (\<lambda>j. P j \<or> j = b) [0..<n]) = Suc (length (filter P [0..<n]))"
  using assms
proof (induction n)
  case 0
  then show ?case by simp
next
  case (Suc n)
  show ?case
  proof (cases "b = n")
    case True
    have "filter (\<lambda>j. P j \<or> j = b) [0..<n] = filter P [0..<n]"
      using True by (intro filter_cong) auto
    then have "length (filter (\<lambda>j. P j \<or> j = b) [0..<n]) = length (filter P [0..<n])"
      by (rule arg_cong)
    then show ?thesis using True Suc.prems by simp
  next
    case False
    then have "b < n" using Suc.prems by simp
    from Suc.IH[OF this Suc.prems(2)] show ?thesis using False by simp
  qed
qed

lemma filter_upt_remove_one:
  assumes "b < n" "P b"
  shows "Suc (length (filter (\<lambda>j. P j \<and> j \<noteq> b) [0..<n])) = length (filter P [0..<n])"
  using assms
proof (induction n)
  case 0
  then show ?case by simp
next
  case (Suc n)
  show ?case
  proof (cases "b = n")
    case True
    have "filter (\<lambda>j. P j \<and> j \<noteq> b) [0..<n] = filter P [0..<n]"
      using True by (intro filter_cong) auto
    then have "length (filter (\<lambda>j. P j \<and> j \<noteq> b) [0..<n]) = length (filter P [0..<n])"
      by (rule arg_cong)
    then show ?thesis using True Suc.prems by simp
  next
    case False
    then have "b < n" using Suc.prems by simp
    from Suc.IH[OF this Suc.prems(2)] show ?thesis using False by simp
  qed
qed

lemma sum_list_upt_add_one:
  assumes "a < n" "f' a = Suc (f a)" "\<And>i. i \<noteq> a \<Longrightarrow> f' i = f i"
  shows "sum_list (map f' [0..<n]) = Suc (sum_list (map f [0..<n]))"
  using assms(1)
proof (induction n)
  case 0
  then show ?case by simp
next
  case (Suc n)
  show ?case
  proof (cases "a = n")
    case True
    have "map f' [0..<n] = map f [0..<n]"
      using True assms(3) by (intro map_cong) auto
    then have "sum_list (map f' [0..<n]) = sum_list (map f [0..<n])"
      by (rule arg_cong)
    then show ?thesis using True assms(2) by simp
  next
    case False
    then have "a < n" using Suc.prems by simp
    from Suc.IH[OF this] show ?thesis using False assms(3) by simp
  qed
qed

lemma reveal_one:
  assumes "shape_ok s" "candidates s \<noteq> []"
  shows "\<exists>s'. reveal rnd s = Some s' \<and> shape_ok s' \<and> code s' = code s
           \<and> mono_state (state s) (state s')
           \<and> guessed_count s' = Suc (guessed_count s)
           \<and> Suc (length (candidates s')) = length (candidates s)"
proof -
  let ?k = "rnd mod length (candidates s)"
  have k: "?k < length (candidates s)" using assms(2) by simp
  obtain a b where pos: "candidates s ! ?k = (a, b)" by (cases "candidates s ! ?k")
  have "(a, b) \<in> set (candidates s)" using k pos by (metis nth_mem)
  then have ab: "a < length (code s)" "b < length (code s ! a)"
    "code s ! a ! b \<noteq> CHR '' ''" "state s ! a ! b \<noteq> EXACT_MATCH"
    by (simp_all add: candidates_mem)
  have r: "a < length (state s)" "b < length (state s ! a)"
    using shape_ok_length[OF assms(1)] shape_ok_row[OF assms(1) ab(1)] ab(1,2) by simp_all
  from set_cell_Some[OF r, of EXACT_MATCH] obtain st' where
    st': "set_cell (state s) a b EXACT_MATCH = Some st'" "same_shape (state s) st'"
      "\<forall>i' p'. st' ! i' ! p' = (if i' = a \<and> p' = b then EXACT_MATCH else state s ! i' ! p')"
    by blast
  let ?s' = "s\<lparr>state := st'\<rparr>"
  have rev: "reveal rnd s = Some ?s'"
    using reveal_candidates_eq[OF assms(1)] assms(2) k pos st'(1)
    by (simp add: reveal_def get_Some)
  have ok': "shape_ok ?s'" by (rule shape_ok_update[OF assms(1) st'(2)])
  have mono: "mono_state (state s) (state ?s')"
    using mono_stateI[OF st'(2), of ] st'(3) by (simp add: mono_cell_def)
  have g_other: "guessed_in_line ?s' i = guessed_in_line s i" if "i \<noteq> a" for i
    unfolding guessed_in_line_def using that st'(3) by simp
  have "guessed_in_line ?s' a =
          filter (\<lambda>j. (code s ! a ! j \<noteq> CHR '' '' \<and> state s ! a ! j = EXACT_MATCH) \<or> j = b)
            [0..<length (code s ! a)]"
    unfolding guessed_in_line_def using st'(3) ab(3) by (intro filter_cong) auto
  then have g_a: "length (guessed_in_line ?s' a) = Suc (length (guessed_in_line s a))"
    using filter_upt_add_one[OF ab(2),
        of "\<lambda>j. code s ! a ! j \<noteq> CHR '' '' \<and> state s ! a ! j = EXACT_MATCH"] ab(4)
    by (simp add: guessed_in_line_def)
  have gc: "guessed_count ?s' = Suc (guessed_count s)"
    unfolding guessed_count_def
    using sum_list_upt_add_one[OF ab(1), of "\<lambda>i. length (guessed_in_line ?s' i)"
        "\<lambda>i. length (guessed_in_line s i)"] g_a g_other
    by simp
  have c_other: "candidates_in_line ?s' i = candidates_in_line s i" if "i \<noteq> a" for i
    unfolding candidates_in_line_def using that st'(3) by simp
  have "candidates_in_line ?s' a =
          filter (\<lambda>j. (code s ! a ! j \<noteq> CHR '' '' \<and> state s ! a ! j \<noteq> EXACT_MATCH) \<and> j \<noteq> b)
            [0..<length (code s ! a)]"
    unfolding candidates_in_line_def using st'(3) by (intro filter_cong) auto
  then have c_a: "length (candidates_in_line s a) = Suc (length (candidates_in_line ?s' a))"
    using filter_upt_remove_one[OF ab(2),
        of "\<lambda>j. code s ! a ! j \<noteq> CHR '' '' \<and> state s ! a ! j \<noteq> EXACT_MATCH"] ab(3,4)
    by (simp add: candidates_in_line_def)
  have cc: "Suc (length (candidates ?s')) = length (candidates s)"
    unfolding length_candidates
    using sum_list_upt_add_one[OF ab(1), of "\<lambda>i. length (candidates_in_line s i)"
        "\<lambda>i. length (candidates_in_line ?s' i)"] c_a c_other
    by simp
  show ?thesis using rev ok' mono gc cc by (intro exI[of _ ?s']) simp
qed

lemma reveal_none:
  assumes "shape_ok s" "candidates s = []"
  shows "reveal rnd s = Some s"
  using reveal_candidates_eq[OF assms(1)] assms(2) by (simp add: reveal_def)

lemma reveal_while_count:
  assumes "shape_ok s" "0 \<le> c"
  shows "\<exists>s'. reveal_while rnd c s = Some s' \<and> shape_ok s' \<and> code s' = code s
           \<and> mono_state (state s) (state s')
           \<and> guessed_count s' = guessed_count s + min (nat c) (length (candidates s))
           \<and> length (candidates s') = length (candidates s) - min (nat c) (length (candidates s))"
proof -
  let ?L = "length (candidates s)"
  let ?I = "\<lambda>k s'. shape_ok s' \<and> code s' = code s \<and> mono_state (state s) (state s')
              \<and> guessed_count s' = guessed_count s + min k ?L
              \<and> length (candidates s') = ?L - min k ?L"
  have "\<exists>s'. for_loop 0 (nat c) (\<lambda>k sn. reveal (rnd k) sn) s = Some s' \<and> ?I (nat c) s'"
  proof (rule for_loop_rule [where I = ?I])
    show "?I 0 s" using assms(1) by (simp add: mono_state_refl)
    show "0 \<le> nat c" by simp
  next
    fix k s1
    assume k: "k < nat c" and I: "?I k s1"
    show "\<exists>a'. reveal (rnd k) s1 = Some a' \<and> ?I (Suc k) a'"
    proof (cases "candidates s1 = []")
      case True
      then have "?L \<le> k" using I by simp
      then show ?thesis using reveal_none[of s1 "rnd k"] I True by (simp add: min_def)
    next
      case False
      then have kl: "k < ?L" using I by (cases "k < ?L") (simp_all add: min_def)
      from reveal_one[of s1 "rnd k"] I False obtain s2 where
        s2: "reveal (rnd k) s1 = Some s2" "shape_ok s2" "code s2 = code s1"
          "mono_state (state s1) (state s2)" "guessed_count s2 = Suc (guessed_count s1)"
          "Suc (length (candidates s2)) = length (candidates s1)"
        by blast
      have "mono_state (state s) (state s2)" using mono_state_trans[OF _ s2(4)] I by blast
      then have "?I (Suc k) s2" using s2 I kl by (simp add: min_def)
      then show ?thesis using s2(1) by blast
    qed
  qed
  then show ?thesis using assms(2) by (simp add: reveal_while_def)
qed

lemma makeGuess_timeAttack:
  assumes "lastRevealTime g \<le> now" "shape_ok (snippet g)" "3 \<le> length gs"
    and "c = (now - lastRevealTime g) div (10 * ticks_per_second)"
  shows "\<exists>r sn sn' msg. guess gs (snippet g) = Some (r, sn)
           \<and> reveal_while rnd c sn = Some sn'
           \<and> makeGuess (timeAttackGame_revealTimes now) rnd gs g =
               Some ([msg], g\<lparr>snippet := sn', guesses := guesses g + 1,
                              lastRevealTime := lastRevealTime g + seconds (revealTime * c)\<rparr>)
           \<and> guessed_count sn' = guessed_count sn + min (nat c) (length (candidates sn))"
proof -
  have long: "\<not> int (length gs) < MIN_LEN" using assms(3) by (simp add: MIN_LEN_def)
  from guess_result[OF assms(2) long] obtain e f st' where
    g: "guess gs (snippet g) = Some ((e, f), (snippet g)\<lparr>state := st'\<rparr>)"
      "e = int (sum_list (map (exact_windows gs) (code (snippet g))))"
      "mono_state (state (snippet g)) st'"
    by blast
  let ?sn = "(snippet g)\<lparr>state := st'\<rparr>"
  have ok: "shape_ok ?sn" by (rule shape_ok_update[OF assms(2) mono_state_shape[OF g(3)]])
  have c0: "0 \<le> c"
    unfolding assms(4) using assms(1)
    by (intro pos_imp_zdiv_nonneg_iff[THEN iffD2]) (simp_all add: ticks_per_second_def)
  from reveal_while_count[OF ok c0, of rnd] obtain sn' where
    w: "reveal_while rnd c ?sn = Some sn'"
      "guessed_count sn' = guessed_count ?sn + min (nat c) (length (candidates ?sn))"
    by blast
  have tok: "gs \<noteq> ''P''" "gs \<noteq> ''F''" using assms(3) by auto
  have e: "e \<noteq> - 1" using g(2) by simp
  have rt: "timeAttackGame_revealTimes now (g\<lparr>snippet := ?sn, guesses := guesses g + 1\<rparr>) =
              (c, g\<lparr>snippet := ?sn, guesses := guesses g + 1,
                     lastRevealTime := lastRevealTime g + seconds (revealTime * c)\<rparr>)"
    using revealTimes_eq[of "g\<lparr>snippet := ?sn, guesses := guesses g + 1\<rparr>" now] assms(1,4)
    by (simp add: seconds_def revealTime_def mult.commute mult.left_commute)
  have "\<exists>msg. makeGuess (timeAttackGame_revealTimes now) rnd gs g =
               Some ([msg], g\<lparr>snippet := sn', guesses := guesses g + 1,
                              lastRevealTime := lastRevealTime g + seconds (revealTime * c)\<rparr>)"
    using tok g(1) e rt w(1) by (simp add: makeGuess_def Let_def)
  then show ?thesis using g(1) w by blast
qed

text \<open>
  C7. Catch-up reveals. The clock never runs behind the last assist. \<open>revealTimes\<close>
  returns the whole seconds since the last assist divided by ten, rounded down, and moves
  the time of the last assist forward by ten seconds times that count, not to the reading
  of the clock: less than ten seconds stay behind, and they count for the next call, so
  that two calls in a row return together what one call at the later time returns. From
  25 to under 30 seconds give a count of 2 and move the time by 20 seconds. \<open>makeGuess\<close>
  on a guess of at least three characters calls \<open>reveal\<close> that many times after the
  guess: each call marks one more character as exactly guessed as long as a candidate is
  left.
\<close>

theorem catch_up_reveal:
  assumes "lastRevealTime g \<le> now" and "shape_ok (snippet g)" and "3 \<le> length gs"
  shows "fst (timeAttackGame_revealTimes now g)
           = (now - lastRevealTime g) div ticks_per_second div 10
       \<and> lastRevealTime (snd (timeAttackGame_revealTimes now g))
           = lastRevealTime g + seconds (10 * fst (timeAttackGame_revealTimes now g))
       \<and> lastRevealTime (snd (timeAttackGame_revealTimes now g)) \<le> now
       \<and> now < lastRevealTime (snd (timeAttackGame_revealTimes now g)) + seconds 10
       \<and> (seconds 25 \<le> now - lastRevealTime g \<and> now - lastRevealTime g < seconds 30
            \<longrightarrow> fst (timeAttackGame_revealTimes now g) = 2
              \<and> lastRevealTime (snd (timeAttackGame_revealTimes now g))
                  = lastRevealTime g + seconds 20)
       \<and> (\<forall>now'. now \<le> now' \<longrightarrow>
             fst (timeAttackGame_revealTimes now g)
               + fst (timeAttackGame_revealTimes now' (snd (timeAttackGame_revealTimes now g)))
             = fst (timeAttackGame_revealTimes now' g))
       \<and> (\<exists>r sn sn' msg. guess gs (snippet g) = Some (r, sn)
             \<and> reveal_while rnd (fst (timeAttackGame_revealTimes now g)) sn = Some sn'
             \<and> makeGuess (timeAttackGame_revealTimes now) rnd gs g =
                 Some ([msg], (snd (timeAttackGame_revealTimes now g))
                                \<lparr>snippet := sn', guesses := guesses g + 1\<rparr>)
             \<and> guessed_count sn' = guessed_count sn
                 + min (nat (fst (timeAttackGame_revealTimes now g))) (length (candidates sn)))"
proof -
  let ?T = "10 * ticks_per_second"
  let ?d = "now - lastRevealTime g"
  let ?c = "?d div ?T"
  have T: "0 < ?T" by (simp add: ticks_per_second_def)
  have rt: "timeAttackGame_revealTimes now g
              = (?c, g\<lparr>lastRevealTime := lastRevealTime g + ?T * ?c\<rparr>)"
    by (rule revealTimes_eq[OF assms(1)])
  have 1: "?c = ?d div ticks_per_second div 10"
    by (simp add: zdiv_zmult2_eq ticks_per_second_def mult.commute)
  have 2: "lastRevealTime g + ?T * ?c = lastRevealTime g + seconds (10 * ?c)"
    by (simp add: seconds_def mult.commute mult.left_commute)
  have dm: "?d = ?T * ?c + ?d mod ?T" by simp
  have m: "0 \<le> ?d mod ?T" "?d mod ?T < ?T" using T by simp_all
  have 3: "lastRevealTime g + ?T * ?c \<le> now" using dm m(1) by linarith
  have s10: "seconds 10 = ?T" by (simp add: seconds_def)
  have 4: "now < lastRevealTime g + ?T * ?c + seconds 10"
    unfolding s10 using dm m(2) by linarith
  have 5: "?c = 2 \<and> lastRevealTime g + ?T * ?c = lastRevealTime g + seconds 20"
    if "seconds 25 \<le> ?d \<and> ?d < seconds 30"
  proof -
    let ?a = "?d - 2 * ?T"
    have a: "0 \<le> ?a" "?a < ?T"
      using that by (simp_all add: seconds_def ticks_per_second_def)
    have "(?a + 2 * ?T) div ?T = 2 + ?a div ?T"
      by (rule div_mult_self1) (use T in simp)
    moreover have "?a div ?T = 0" by (rule div_pos_pos_trivial[OF a])
    moreover have "?a + 2 * ?T = ?d" by simp
    ultimately have "?c = 2" by simp
    then show ?thesis by (simp add: seconds_def)
  qed
  have 6: "fst (timeAttackGame_revealTimes now g)
               + fst (timeAttackGame_revealTimes now' (snd (timeAttackGame_revealTimes now g)))
             = fst (timeAttackGame_revealTimes now' g)"
    if "now \<le> now'" for now'
    using revealTimes_additive[OF assms(1) that] by blast
  from makeGuess_timeAttack[OF assms refl, of rnd] obtain r sn sn' msg where
    7: "guess gs (snippet g) = Some (r, sn)" "reveal_while rnd ?c sn = Some sn'"
      "makeGuess (timeAttackGame_revealTimes now) rnd gs g =
               Some ([msg], g\<lparr>snippet := sn', guesses := guesses g + 1,
                              lastRevealTime := lastRevealTime g + seconds (revealTime * ?c)\<rparr>)"
      "guessed_count sn' = guessed_count sn + min (nat ?c) (length (candidates sn))"
    by blast
  have 8: "g\<lparr>snippet := sn', guesses := guesses g + 1,
             lastRevealTime := lastRevealTime g + seconds (revealTime * ?c)\<rparr>
           = (g\<lparr>lastRevealTime := lastRevealTime g + ?T * ?c\<rparr>)
               \<lparr>snippet := sn', guesses := guesses g + 1\<rparr>"
    by (simp add: seconds_def revealTime_def mult.commute mult.left_commute)
  have 9: "\<exists>r sn sn' msg. guess gs (snippet g) = Some (r, sn)
             \<and> reveal_while rnd ?c sn = Some sn'
             \<and> makeGuess (timeAttackGame_revealTimes now) rnd gs g =
                 Some ([msg], (g\<lparr>lastRevealTime := lastRevealTime g + ?T * ?c\<rparr>)
                                \<lparr>snippet := sn', guesses := guesses g + 1\<rparr>)
             \<and> guessed_count sn' = guessed_count sn + min (nat ?c) (length (candidates sn))"
    using 7 unfolding 8 by blast
  have sel: "lastRevealTime (g\<lparr>lastRevealTime := x\<rparr>) = x" for x by simp
  have A1: "fst (timeAttackGame_revealTimes now g)
              = (now - lastRevealTime g) div ticks_per_second div 10"
    unfolding rt fst_conv by (rule 1)
  have A2: "lastRevealTime (snd (timeAttackGame_revealTimes now g))
              = lastRevealTime g + seconds (10 * fst (timeAttackGame_revealTimes now g))"
    unfolding rt fst_conv snd_conv using 2 by simp
  have A3: "lastRevealTime (snd (timeAttackGame_revealTimes now g)) \<le> now"
    unfolding rt snd_conv using 3 by simp
  have A4: "now < lastRevealTime (snd (timeAttackGame_revealTimes now g)) + seconds 10"
    unfolding rt snd_conv using 4 by simp
  have A5: "seconds 25 \<le> now - lastRevealTime g \<and> now - lastRevealTime g < seconds 30
            \<longrightarrow> fst (timeAttackGame_revealTimes now g) = 2
              \<and> lastRevealTime (snd (timeAttackGame_revealTimes now g))
                  = lastRevealTime g + seconds 20"
    unfolding rt fst_conv snd_conv sel using 5 by blast
  have A6: "\<forall>now'. now \<le> now' \<longrightarrow>
             fst (timeAttackGame_revealTimes now g)
               + fst (timeAttackGame_revealTimes now' (snd (timeAttackGame_revealTimes now g)))
             = fst (timeAttackGame_revealTimes now' g)"
    using 6 by blast
  have A7: "\<exists>r sn sn' msg. guess gs (snippet g) = Some (r, sn)
             \<and> reveal_while rnd (fst (timeAttackGame_revealTimes now g)) sn = Some sn'
             \<and> makeGuess (timeAttackGame_revealTimes now) rnd gs g =
                 Some ([msg], (snd (timeAttackGame_revealTimes now g))
                                \<lparr>snippet := sn', guesses := guesses g + 1\<rparr>)
             \<and> guessed_count sn' = guessed_count sn
                 + min (nat (fst (timeAttackGame_revealTimes now g))) (length (candidates sn))"
    unfolding rt fst_conv snd_conv by (rule 9)
  show ?thesis by (intro conjI A1 A2 A3 A4 A5 A6 A7)
qed

theorem catch_up_reveal_witness:
  "lastRevealTime example_timeAttackGame \<le> 30500000000
   \<and> shape_ok (snippet example_timeAttackGame) \<and> 3 \<le> length ''ine''
   \<and> 30500000000 - lastRevealTime example_timeAttackGame = seconds 25 + 500000000
   \<and> timeAttackGame_revealTimes 30500000000 example_timeAttackGame
       = (2, example_timeAttackGame\<lparr>lastRevealTime := 5000000000 + seconds 20\<rparr>)
   \<and> fst (timeAttackGame_revealTimes 30500000000 example_timeAttackGame) = 2
   \<and> timeAttackGame_revealTimes 36000000000
        (snd (timeAttackGame_revealTimes 30500000000 example_timeAttackGame))
       = (1, example_timeAttackGame\<lparr>lastRevealTime := 5000000000 + seconds 30\<rparr>)
   \<and> map_option (\<lambda>(msg, g'). (msg, state (snippet g'), guesses g', lastRevealTime g'))
        (makeGuess (timeAttackGame_revealTimes 30500000000) example_rnd ''ine''
           example_timeAttackGame)
       = Some ([''1 matches found, 2 fuzzy matches found.''],
               [[1, 2, 1, 0, 2, 2, 2, 0, 0, 0, 0], [2, 1, 1, 0]], 4, 25000000000)"
proof -
  have h1: "lastRevealTime example_timeAttackGame \<le> 30500000000"
    by (simp add: example_timeAttackGame_def)
  have h2: "shape_ok (snippet example_timeAttackGame)"
    by (simp add: shape_ok_def example_timeAttackGame_def example_snippet_def)
  have h3: "3 \<le> length ''ine''" by simp
  have d: "30500000000 - lastRevealTime example_timeAttackGame = seconds 25 + 500000000"
    by (simp add: example_timeAttackGame_def seconds_def ticks_per_second_def)
  have r: "seconds 25 \<le> 30500000000 - lastRevealTime example_timeAttackGame
           \<and> 30500000000 - lastRevealTime example_timeAttackGame < seconds 30"
    by (simp add: example_timeAttackGame_def seconds_def ticks_per_second_def)
  have c1: "timeAttackGame_revealTimes 30500000000 example_timeAttackGame
       = (2, example_timeAttackGame\<lparr>lastRevealTime := 5000000000 + seconds 20\<rparr>)"
    by code_simp
  have c2: "timeAttackGame_revealTimes 36000000000
        (snd (timeAttackGame_revealTimes 30500000000 example_timeAttackGame))
       = (1, example_timeAttackGame\<lparr>lastRevealTime := 5000000000 + seconds 30\<rparr>)"
    by code_simp
  have c3: "map_option (\<lambda>(msg, g'). (msg, state (snippet g'), guesses g', lastRevealTime g'))
        (makeGuess (timeAttackGame_revealTimes 30500000000) example_rnd ''ine''
           example_timeAttackGame)
       = Some ([''1 matches found, 2 fuzzy matches found.''],
               [[1, 2, 1, 0, 2, 2, 2, 0, 0, 0, 0], [2, 1, 1, 0]], 4, 25000000000)"
    by code_simp
  have "fst (timeAttackGame_revealTimes 30500000000 example_timeAttackGame) = 2"
    using catch_up_reveal[OF h1 h2 h3, of example_rnd] r by blast
  then show ?thesis using h1 h2 h3 d c1 c2 c3 by simp
qed

end
